theory Spec2Isabelle
  imports Complex_Main "HOL-Library.Sublist"
begin

section \<open>Values exchanged with the provider\<close>

text \<open>
  The governor stores and hands out whatever \<^verbatim>\<open>response.json()\<close> produced. A JavaScript
  number is modelled as an exact rational or one of the three non-finite values; the
  rounding of IEEE doubles and the sign of zero are not modelled.
\<close>

datatype jsnum = NaN | Fin rat | PosInf | NegInf

datatype js =
    Undefined
  | Null
  | JBool bool
  | JNum jsnum
  | JStr string
  | JArr "js list"
  | JObj "(string \<times> js) list"

text \<open>A promise settles one way or the other; a rejection carries the error's message.\<close>

datatype 'a outcome = Fulfilled 'a | Rejected string

section \<open>The cache key\<close>

text \<open>
  \<^verbatim>\<open>new URLSearchParams(params).toString()\<close> is the application/x-www-form-urlencoded
  serializer of the URL standard: the entries of the record in the order the object
  enumerates them (for property names that are not array indices, the order in which they
  were written), each name and value percent-encoded, joined by \<open>=\<close> and \<open>&\<close>. Only ASCII
  letters and digits and \<open>* - . _\<close> stay as they are, a space becomes \<open>+\<close>, every other
  byte of the UTF-8 form becomes \<open>%XX\<close> in upper-case hexadecimal.
\<close>

definition unreserved :: "char \<Rightarrow> bool" where
  "unreserved c =
     (let n = (of_char c :: nat)
      in (48 \<le> n \<and> n \<le> 57) \<or> (65 \<le> n \<and> n \<le> 90) \<or> (97 \<le> n \<and> n \<le> 122)
         \<or> n = 42 \<or> n = 45 \<or> n = 46 \<or> n = 95)"

definition hexdigit :: "nat \<Rightarrow> char" where
  "hexdigit n = ''0123456789ABCDEF'' ! n"

definition encodeByte :: "char \<Rightarrow> string" where
  "encodeByte c =
     (if unreserved c then [c]
      else if c = CHR '' '' then ''+''
      else [CHR ''%'', hexdigit ((of_char c :: nat) div 16), hexdigit ((of_char c :: nat) mod 16)])"

definition urlencode :: "string \<Rightarrow> string" where
  "urlencode s = concat (map encodeByte s)"

fun URLSearchParams_toString :: "(string \<times> string) list \<Rightarrow> string" where
  "URLSearchParams_toString [] = []"
| "URLSearchParams_toString [(n, v)] = urlencode n @ ''='' @ urlencode v"
| "URLSearchParams_toString ((n, v) # ps) =
     urlencode n @ ''='' @ urlencode v @ ''&'' @ URLSearchParams_toString ps"

definition cacheKey :: "string \<Rightarrow> (string \<times> string) list \<Rightarrow> string" where
  "cacheKey endpoint params = endpoint @ ''?'' @ URLSearchParams_toString params"

section \<open>The request governor\<close>

definition CACHE_DURATION :: int where
  "CACHE_DURATION = 300000"

definition MIN_REQUEST_INTERVAL :: int where
  "MIN_REQUEST_INTERVAL = 2000"

text \<open>
  An entry of \<^verbatim>\<open>requestQueue\<close> is the closure that \<^verbatim>\<open>queueRequest\<close> pushes; it is
  determined by what it captured: the endpoint and parameters of the \<^verbatim>\<open>fetchWithCache\<close>
  call and the promise (\<open>q_pid\<close>) whose \<^verbatim>\<open>resolve\<close> and \<^verbatim>\<open>reject\<close> it holds.
\<close>

datatype qitem = QItem (q_endpoint: string) (q_params: "(string \<times> string) list") (q_pid: nat)

definition q_key :: "qitem \<Rightarrow> string" where
  "q_key it = cacheKey (q_endpoint it) (q_params it)"

text \<open>
  What the network gives back to one \<^verbatim>\<open>fetch\<close>: the call rejects (a transport error), or
  it yields a response with a status, and reading the body as text or as JSON may in turn
  succeed or reject.
\<close>

datatype fetch_result =
    NetworkError string
  | Response (status: nat) (text_body: "string outcome") (json_body: "js outcome")

definition ok :: "nat \<Rightarrow> bool" where
  "ok st = (200 \<le> st \<and> st \<le> 299)"

text \<open>
  One invocation of \<^verbatim>\<open>processQueue\<close> that got past its guard is suspended at one of its
  \<^verbatim>\<open>await\<close>s: the back-off timer (with the time it is due), the spacing timer, the
  \<^verbatim>\<open>fetch\<close> of the item it dispatched, or the continuation of the queue wrapper once the
  item's own work has settled.
\<close>

datatype proc =
    WaitRateLimit int
  | WaitSpacing int
  | AwaitFetch qitem
  | AwaitWrapper qitem "js outcome"

text \<open>
  The fields of the class, the clock read by \<^verbatim>\<open>Date.now()\<close>, the suspended invocations
  of \<^verbatim>\<open>processQueue\<close>, the promises settled so far, and three histories that the code
  does not keep but the properties speak about: every \<^verbatim>\<open>fetch\<close> issued, every item
  pushed, every item taken from the queue, each with the time it happened.
\<close>

record gov =
  cache :: "string \<rightharpoonup> js \<times> int"
  requestQueue :: "qitem list"
  isProcessingQueue :: bool
  lastRequestTime :: int
  pendingRequests :: "string \<rightharpoonup> nat"
  rateLimitedUntil :: int
  retryDelay :: int
  clock :: int
  loops :: "proc list"
  settled :: "nat \<rightharpoonup> js outcome"
  nextPid :: nat
  fetchLog :: "(qitem \<times> int) list"
  enqueued :: "qitem list"
  dispatched :: "(qitem \<times> int) list"

definition init :: "int \<Rightarrow> gov" where
  "init t0 = \<lparr> cache = Map.empty, requestQueue = [], isProcessingQueue = False,
      lastRequestTime = 0, pendingRequests = Map.empty, rateLimitedUntil = 0,
      retryDelay = 5000, clock = t0, loops = [], settled = Map.empty, nextPid = 0,
      fetchLog = [], enqueued = [], dispatched = [] \<rparr>"

subsection \<open>Helpers for messages\<close>

fun show_nat :: "nat \<Rightarrow> string" where
  "show_nat n =
     (if n < 10 then [''0123456789'' ! n] else show_nat (n div 10) @ [''0123456789'' ! (n mod 10)])"

declare show_nat.simps [simp del]

fun str_includes :: "string \<Rightarrow> string \<Rightarrow> bool" where
  "str_includes [] sub = (sub = [])"
| "str_includes (c # cs) sub = (prefix sub (c # cs) \<or> str_includes cs sub)"

subsection \<open>fetchWithCache: the queued closure\<close>

text \<open>\<^verbatim>\<open>cached && Date.now() - cached.timestamp < this.CACHE_DURATION\<close>\<close>

definition cache_hit :: "gov \<Rightarrow> string \<Rightarrow> js option" where
  "cache_hit s k =
     (case cache s k of
        None \<Rightarrow> None
      | Some (d, ts) \<Rightarrow> if clock s - ts < CACHE_DURATION then Some d else None)"

text \<open>
  The closure up to its first \<^verbatim>\<open>await\<close>: it looks into the cache again and returns the
  payload found there, or else calls \<^verbatim>\<open>fetch\<close>. The configured base URL is taken to be
  a valid absolute URL, so that \<^verbatim>\<open>new URL(endpoint, baseUrl)\<close> does not throw.
\<close>

definition request_start :: "qitem \<Rightarrow> gov \<Rightarrow> gov \<times> proc" where
  "request_start it s =
     (case cache_hit s (q_key it) of
        Some d \<Rightarrow> (s, AwaitWrapper it (Fulfilled d))
      | None \<Rightarrow> (s\<lparr>fetchLog := fetchLog s @ [(it, clock s)]\<rparr>, AwaitFetch it))"

text \<open>The closure from the answer of \<^verbatim>\<open>fetch\<close> to its return or throw.\<close>

definition request_finish :: "qitem \<Rightarrow> fetch_result \<Rightarrow> gov \<Rightarrow> gov \<times> js outcome" where
  "request_finish it r s =
     (case r of
        NetworkError msg \<Rightarrow> (s, Rejected msg)
      | Response st txt jsn \<Rightarrow>
          if \<not> ok st then
            (case txt of
               Rejected msg \<Rightarrow> (s, Rejected msg)
             | Fulfilled errorText \<Rightarrow>
                 (s\<lparr>pendingRequests := (pendingRequests s)(q_key it := None)\<rparr>,
                  Rejected (''API request failed: '' @ show_nat st @ '' - '' @ errorText)))
          else
            (case jsn of
               Rejected msg \<Rightarrow> (s, Rejected msg)
             | Fulfilled d \<Rightarrow>
                 (s\<lparr>cache := (cache s)(q_key it \<mapsto> (d, clock s)),
                    pendingRequests := (pendingRequests s)(q_key it := None)\<rparr>,
                  Fulfilled d)))"

subsection \<open>queueRequest and processQueue\<close>

text \<open>\<^verbatim>\<open>resolve\<close> and \<^verbatim>\<open>reject\<close> settle a promise once; later calls do nothing.\<close>

definition settle :: "nat \<Rightarrow> js outcome \<Rightarrow> gov \<Rightarrow> gov" where
  "settle p out s = (if p \<in> dom (settled s) then s else s\<lparr>settled := (settled s)(p \<mapsto> out)\<rparr>)"

text \<open>
  The wrapper pushed by \<^verbatim>\<open>queueRequest\<close>, after its \<^verbatim>\<open>await request()\<close>: it resolves
  the caller's promise in the \<^verbatim>\<open>try\<close> and rejects it in the \<^verbatim>\<open>catch\<close>, and returns
  normally from both.
\<close>

definition wrapper_finish :: "qitem \<Rightarrow> js outcome \<Rightarrow> gov \<Rightarrow> gov \<times> unit outcome" where
  "wrapper_finish it out s =
     (case out of
        Fulfilled result \<Rightarrow> (settle (q_pid it) (Fulfilled result) s, Fulfilled ())
      | Rejected error \<Rightarrow> (settle (q_pid it) (Rejected error) s, Fulfilled ()))"

text \<open>\<^verbatim>\<open>processQueue\<close> from the result of \<^verbatim>\<open>await request()\<close> to the end of the loop body.\<close>

definition after_request :: "unit outcome \<Rightarrow> gov \<Rightarrow> gov" where
  "after_request r s =
     (let s1 = (case r of
                  Fulfilled _ \<Rightarrow> s\<lparr>retryDelay := 5000\<rparr>
                | Rejected msg \<Rightarrow>
                    if str_includes msg ''429''
                    then s\<lparr>rateLimitedUntil := clock s + retryDelay s,
                           retryDelay := min (retryDelay s * 2) 60000\<rparr>
                    else s)
      in s1\<lparr>lastRequestTime := clock s1\<rparr>)"

text \<open>
  \<^verbatim>\<open>requestQueue.shift()\<close> and the call of the item. Were the queue empty, \<^verbatim>\<open>request\<close>
  would be undefined, the body skipped and the loop left.
\<close>

definition dispatch :: "gov \<Rightarrow> gov \<times> proc option" where
  "dispatch s =
     (case requestQueue s of
        [] \<Rightarrow> (s\<lparr>isProcessingQueue := False\<rparr>, None)
      | it # q \<Rightarrow>
          (let (s1, p) = request_start it
                 (s\<lparr>requestQueue := q, dispatched := dispatched s @ [(it, clock s)]\<rparr>)
           in (s1, Some p)))"

text \<open>The spacing check, entered after the back-off wait, if any.\<close>

definition after_rate_wait :: "gov \<Rightarrow> gov \<times> proc option" where
  "after_rate_wait s =
     (let now = clock s; timeSinceLastRequest = now - lastRequestTime s
      in if timeSinceLastRequest < MIN_REQUEST_INTERVAL
         then (s, Some (WaitSpacing (now + (MIN_REQUEST_INTERVAL - timeSinceLastRequest))))
         else dispatch s)"

text \<open>The head of the \<^verbatim>\<open>while\<close> loop.\<close>

definition loop_head :: "gov \<Rightarrow> gov \<times> proc option" where
  "loop_head s =
     (if requestQueue s = [] then (s\<lparr>isProcessingQueue := False\<rparr>, None)
      else if clock s < rateLimitedUntil s
      then (s, Some (WaitRateLimit (clock s + (rateLimitedUntil s - clock s))))
      else after_rate_wait s)"

definition spawn :: "gov \<times> proc option \<Rightarrow> gov" where
  "spawn r = (case r of (s, None) \<Rightarrow> s | (s, Some p) \<Rightarrow> s\<lparr>loops := loops s @ [p]\<rparr>)"

definition processQueue :: "gov \<Rightarrow> gov" where
  "processQueue s =
     (if isProcessingQueue s \<or> requestQueue s = [] then s
      else spawn (loop_head (s\<lparr>isProcessingQueue := True\<rparr>)))"

definition queueRequest :: "string \<Rightarrow> (string \<times> string) list \<Rightarrow> gov \<Rightarrow> gov \<times> nat" where
  "queueRequest endpoint params s =
     (let p = nextPid s; it = QItem endpoint params p
      in (processQueue (s\<lparr>nextPid := Suc p, requestQueue := requestQueue s @ [it],
                           enqueued := enqueued s @ [it]\<rparr>), p))"

subsection \<open>fetchWithCache and clearCache\<close>

text \<open>What the caller of \<^verbatim>\<open>fetchWithCache\<close> is handed: a payload, or a promise to wait for.\<close>

datatype ret = Data js | Pending nat

definition fetchWithCache :: "string \<Rightarrow> (string \<times> string) list \<Rightarrow> gov \<Rightarrow> gov \<times> ret" where
  "fetchWithCache endpoint params s =
     (let k = cacheKey endpoint params
      in case cache_hit s k of
           Some d \<Rightarrow> (s, Data d)
         | None \<Rightarrow>
             (case pendingRequests s k of
                Some pending \<Rightarrow> (s, Pending pending)
              | None \<Rightarrow>
                  (let (s1, requestPromise) = queueRequest endpoint params s
                   in (s1\<lparr>pendingRequests := (pendingRequests s1)(k \<mapsto> requestPromise)\<rparr>,
                       Pending requestPromise))))"

definition clearCache :: "gov \<Rightarrow> gov" where
  "clearCache s = s\<lparr>cache := Map.empty, pendingRequests := Map.empty,
                    rateLimitedUntil := 0, retryDelay := 5000\<rparr>"

subsection \<open>The event loop\<close>

text \<open>
  Everything between two \<^verbatim>\<open>await\<close>s runs without interruption; an event is what starts such
  a run: a caller invoking \<^verbatim>\<open>fetchWithCache\<close> or \<^verbatim>\<open>clearCache\<close>, time passing, the due
  timer of the \<open>i\<close>-th suspended loop firing, the network answering the \<^verbatim>\<open>fetch\<close> the
  \<open>i\<close>-th loop waits for, or the continuation of the \<open>i\<close>-th loop after its item has
  settled. An event that cannot happen in a state has no successor.

  The clock never runs backwards, and a timer never fires before it is due. The answer to a
  \<^verbatim>\<open>fetch\<close> and the reading of its body are one event: the closure touches no field
  between the two. The continuation of the queue wrapper, which settles the caller's
  promise, and that of \<^verbatim>\<open>processQueue\<close>, which follows it, are one event as well. In both
  pairs another event falling between the halves leaves the fields as it would when it
  comes just before the first half.
\<close>

datatype event =
    Fetch string "(string \<times> string) list"
  | ClearCache
  | Tick nat
  | Timer nat
  | Respond nat fetch_result
  | Resume nat

definition continue :: "nat \<Rightarrow> gov \<times> proc option \<Rightarrow> gov" where
  "continue i r =
     (case r of
        (s, None) \<Rightarrow> s\<lparr>loops := take i (loops s) @ drop (Suc i) (loops s)\<rparr>
      | (s, Some p) \<Rightarrow> s\<lparr>loops := (loops s)[i := p]\<rparr>)"

definition step :: "event \<Rightarrow> gov \<Rightarrow> gov option" where
  "step e s =
     (case e of
        Fetch endpoint params \<Rightarrow> Some (fst (fetchWithCache endpoint params s))
      | ClearCache \<Rightarrow> Some (clearCache s)
      | Tick d \<Rightarrow> Some (s\<lparr>clock := clock s + int d\<rparr>)
      | Timer i \<Rightarrow>
          if i < length (loops s) then
            (case loops s ! i of
               WaitRateLimit due \<Rightarrow> if due \<le> clock s then Some (continue i (after_rate_wait s)) else None
             | WaitSpacing due \<Rightarrow> if due \<le> clock s then Some (continue i (dispatch s)) else None
             | _ \<Rightarrow> None)
          else None
      | Respond i r \<Rightarrow>
          if i < length (loops s) then
            (case loops s ! i of
               AwaitFetch it \<Rightarrow>
                 (let (s1, out) = request_finish it r s
                  in Some (s1\<lparr>loops := (loops s1)[i := AwaitWrapper it out]\<rparr>))
             | _ \<Rightarrow> None)
          else None
      | Resume i \<Rightarrow>
          if i < length (loops s) then
            (case loops s ! i of
               AwaitWrapper it out \<Rightarrow>
                 (let (s1, r) = wrapper_finish it out s
                  in Some (continue i (loop_head (after_request r s1))))
             | _ \<Rightarrow> None)
          else None)"

fun run :: "event list \<Rightarrow> gov \<Rightarrow> gov option" where
  "run [] s = Some s"
| "run (e # es) s = (case step e s of None \<Rightarrow> None | Some s' \<Rightarrow> run es s')"

inductive reachable :: "gov \<Rightarrow> bool" where
  reach_init: "0 \<le> t0 \<Longrightarrow> reachable (init t0)"
| reach_step: "reachable s \<Longrightarrow> step e s = Some s' \<Longrightarrow> reachable s'"

subsection \<open>Invariants\<close>

text \<open>The item a suspended loop is busy with; none while it waits for a timer.\<close>

fun proc_item :: "proc \<Rightarrow> qitem option" where
  "proc_item (WaitRateLimit due) = None"
| "proc_item (WaitSpacing due) = None"
| "proc_item (AwaitFetch it) = Some it"
| "proc_item (AwaitWrapper it out) = Some it"

definition inv_loops :: "gov \<Rightarrow> bool" where
  "inv_loops s =
     (length (loops s) \<le> 1 \<and> (isProcessingQueue s \<longleftrightarrow> loops s \<noteq> [])
      \<and> (\<not> isProcessingQueue s \<longrightarrow> requestQueue s = []))"

text \<open>Successive times at least the minimum interval apart.\<close>

fun spaced :: "int list \<Rightarrow> bool" where
  "spaced [] = True"
| "spaced [a] = True"
| "spaced (a # b # r) = (MIN_REQUEST_INTERVAL \<le> b - a \<and> spaced (b # r))"

definition inv_fifo :: "gov \<Rightarrow> bool" where
  "inv_fifo s = (map fst (dispatched s) @ requestQueue s = enqueued s)"

definition inv_spacing :: "gov \<Rightarrow> bool" where
  "inv_spacing s =
     (spaced (map snd (dispatched s))
      \<and> lastRequestTime s \<le> clock s
      \<and> (\<forall>t \<in> set (map snd (dispatched s)). t \<le> clock s)
      \<and> ((\<forall>p \<in> set (loops s). proc_item p = None) \<longrightarrow>
          (\<forall>t \<in> set (map snd (dispatched s)). t \<le> lastRequestTime s))
      \<and> (\<forall>due. WaitSpacing due \<in> set (loops s) \<longrightarrow> lastRequestTime s + MIN_REQUEST_INTERVAL \<le> due))"

definition inv_done :: "gov \<Rightarrow> bool" where
  "inv_done s =
     (((\<forall>p \<in> set (loops s). proc_item p = None) \<longrightarrow>
         (\<forall>it \<in> set (map fst (dispatched s)). q_pid it \<in> dom (settled s)))
      \<and> (\<forall>p \<in> set (loops s). \<forall>it. proc_item p = Some it \<longrightarrow>
            dispatched s \<noteq> [] \<and> fst (last (dispatched s)) = it
            \<and> (\<forall>it' \<in> set (map fst (butlast (dispatched s))). q_pid it' \<in> dom (settled s))))"

definition inv_pending :: "gov \<Rightarrow> bool" where
  "inv_pending s =
     (\<forall>k d ts. pendingRequests s k \<noteq> None \<longrightarrow> cache s k = Some (d, ts)
        \<longrightarrow> CACHE_DURATION \<le> clock s - ts)"

section \<open>JavaScript operations on provider data\<close>

text \<open>
  The operations that the normalisation code applies to values that came out of
  \<^verbatim>\<open>response.json()\<close>, as ECMAScript defines them. Strings are the bytes of their UTF-8
  form; \<open>length\<close> and indexing of a string are exact for ASCII only.
\<close>

subsection \<open>Truthiness and \<open>||\<close>\<close>

fun truthy :: "js \<Rightarrow> bool" where
  "truthy Undefined = False"
| "truthy Null = False"
| "truthy (JBool b) = b"
| "truthy (JNum NaN) = False"
| "truthy (JNum (Fin r)) = (r \<noteq> 0)"
| "truthy (JNum PosInf) = True"
| "truthy (JNum NegInf) = True"
| "truthy (JStr s) = (s \<noteq> [])"
| "truthy (JArr xs) = True"
| "truthy (JObj kvs) = True"

definition js_or :: "js \<Rightarrow> js \<Rightarrow> js" where
  "js_or a b = (if truthy a then a else b)"

definition nullish :: "js \<Rightarrow> bool" where
  "nullish x = (x = Undefined \<or> x = Null)"

subsection \<open>Property access\<close>

text \<open>
  Reading a property of \<^verbatim>\<open>undefined\<close> or \<^verbatim>\<open>null\<close> throws a TypeError. \<open>JObj\<close> lists the
  own properties of a parsed object. Of the names the code reads, only \<open>length\<close> (on
  strings and arrays) exists on a prototype of a JSON value, besides \<open>values\<close> on arrays,
  which the code reads only from an element whose \<open>metric\<close> is a string, that is, from an
  object.
\<close>

datatype jserr = TypeError

definition bindE :: "jserr + 'a \<Rightarrow> ('a \<Rightarrow> jserr + 'b) \<Rightarrow> jserr + 'b" where
  "bindE m f = (case m of Inl e \<Rightarrow> Inl e | Inr v \<Rightarrow> f v)"

definition field :: "(string \<times> js) list \<Rightarrow> string \<Rightarrow> js" where
  "field kvs n = (case map_of kvs n of None \<Rightarrow> Undefined | Some v \<Rightarrow> v)"

definition getprop :: "js \<Rightarrow> string \<Rightarrow> jserr + js" where
  "getprop x n =
     (case x of
        Undefined \<Rightarrow> Inl TypeError
      | Null \<Rightarrow> Inl TypeError
      | JObj kvs \<Rightarrow> Inr (field kvs n)
      | JArr xs \<Rightarrow> Inr (if n = ''length'' then JNum (Fin (of_nat (length xs))) else Undefined)
      | JStr s \<Rightarrow> Inr (if n = ''length'' then JNum (Fin (of_nat (length s))) else Undefined)
      | _ \<Rightarrow> Inr Undefined)"

text \<open>\<^verbatim>\<open>x?.n\<close>\<close>

definition optprop :: "js \<Rightarrow> string \<Rightarrow> jserr + js" where
  "optprop x n = (if nullish x then Inr Undefined else getprop x n)"

text \<open>\<^verbatim>\<open>v[i]\<close>\<close>

definition getidx :: "js \<Rightarrow> nat \<Rightarrow> jserr + js" where
  "getidx x i =
     (case x of
        Undefined \<Rightarrow> Inl TypeError
      | Null \<Rightarrow> Inl TypeError
      | JArr xs \<Rightarrow> Inr (if i < length xs then xs ! i else Undefined)
      | JStr s \<Rightarrow> Inr (if i < length s then JStr [s ! i] else Undefined)
      | JObj kvs \<Rightarrow> Inr (field kvs (show_nat i))
      | _ \<Rightarrow> Inr Undefined)"

subsection \<open>Number(x)\<close>

text \<open>
  StringToNumber: white space is trimmed, the empty string is 0, then either a hexadecimal,
  octal or binary integer literal without sign, or an optionally signed \<open>Infinity\<close> or
  decimal literal with optional fraction and exponent; anything else is NaN.
\<close>

definition ws1 :: "char \<Rightarrow> bool" where
  "ws1 a = ((of_char a :: nat) \<in> {0x09, 0x0A, 0x0B, 0x0C, 0x0D, 0x20})"

definition ws2 :: "char \<Rightarrow> char \<Rightarrow> bool" where
  "ws2 a b = ((of_char a :: nat) = 0xC2 \<and> (of_char b :: nat) = 0xA0)"

definition ws3 :: "char \<Rightarrow> char \<Rightarrow> char \<Rightarrow> bool" where
  "ws3 a b c =
     (let x = (of_char a :: nat); y = (of_char b :: nat); z = (of_char c :: nat)
      in (x = 0xE1 \<and> y = 0x9A \<and> z = 0x80)
         \<or> (x = 0xE2 \<and> y = 0x80 \<and> ((0x80 \<le> z \<and> z \<le> 0x8A) \<or> z = 0xA8 \<or> z = 0xA9 \<or> z = 0xAF))
         \<or> (x = 0xE2 \<and> y = 0x81 \<and> z = 0x9F)
         \<or> (x = 0xE3 \<and> y = 0x80 \<and> z = 0x80)
         \<or> (x = 0xEF \<and> y = 0xBB \<and> z = 0xBF))"

text \<open>
  Dropping leading white space; with \<open>back\<close> the string is read from its end, so the
  bytes of a character arrive in reverse.
\<close>

fun drop_ws :: "bool \<Rightarrow> string \<Rightarrow> string" where
  "drop_ws back [] = []"
| "drop_ws back [a] = (if ws1 a then [] else [a])"
| "drop_ws back [a, b] =
     (if ws1 a then drop_ws back [b]
      else if (if back then ws2 b a else ws2 a b) then []
      else [a, b])"
| "drop_ws back (a # b # c # r) =
     (if ws1 a then drop_ws back (b # c # r)
      else if (if back then ws2 b a else ws2 a b) then drop_ws back (c # r)
      else if (if back then ws3 c b a else ws3 a b c) then drop_ws back r
      else a # b # c # r)"

definition trim :: "string \<Rightarrow> string" where
  "trim s = rev (drop_ws True (rev (drop_ws False s)))"

definition digit_of :: "char \<Rightarrow> nat" where
  "digit_of c =
     (let n = (of_char c :: nat)
      in if 48 \<le> n \<and> n \<le> 57 then n - 48
         else if 97 \<le> n \<and> n \<le> 102 then n - 87
         else if 65 \<le> n \<and> n \<le> 70 then n - 55
         else 16)"

definition digits_in :: "nat \<Rightarrow> string \<Rightarrow> bool" where
  "digits_in base ds = (\<forall>c \<in> set ds. digit_of c < base)"

definition digits_val :: "nat \<Rightarrow> string \<Rightarrow> nat" where
  "digits_val base ds = foldl (\<lambda>a c. base * a + digit_of c) 0 ds"

definition exponent_part :: "string \<Rightarrow> int option" where
  "exponent_part r =
     (case r of
        [] \<Rightarrow> Some 0
      | c # r1 \<Rightarrow>
          if c = CHR ''e'' \<or> c = CHR ''E'' then
            (let (neg, ds) = (case r1 of
                                [] \<Rightarrow> (False, [])
                              | d # r2 \<Rightarrow> if d = CHR ''-'' then (True, r2)
                                          else if d = CHR ''+'' then (False, r2)
                                          else (False, r1))
             in if ds \<noteq> [] \<and> digits_in 10 ds
                then Some (if neg then - int (digits_val 10 ds) else int (digits_val 10 ds))
                else None)
          else None)"

definition unsigned_decimal :: "string \<Rightarrow> jsnum" where
  "unsigned_decimal t =
     (if t = ''Infinity'' then PosInf
      else
        (let ip = takeWhile (\<lambda>c. digit_of c < 10) t;
             r1 = dropWhile (\<lambda>c. digit_of c < 10) t;
             fp = (case r1 of [] \<Rightarrow> [] | c # r \<Rightarrow>
                     if c = CHR ''.'' then takeWhile (\<lambda>c. digit_of c < 10) r else []);
             r2 = (case r1 of [] \<Rightarrow> [] | c # r \<Rightarrow>
                     if c = CHR ''.'' then dropWhile (\<lambda>c. digit_of c < 10) r else r1)
         in if ip = [] \<and> fp = [] then NaN
            else (case exponent_part r2 of
                    None \<Rightarrow> NaN
                  | Some ex \<Rightarrow>
                      Fin (of_nat (digits_val 10 (ip @ fp))
                           * (if 0 \<le> ex - int (length fp)
                              then 10 ^ nat (ex - int (length fp))
                              else 1 / 10 ^ nat (int (length fp) - ex))))))"

definition jsnum_neg :: "jsnum \<Rightarrow> jsnum" where
  "jsnum_neg n = (case n of NaN \<Rightarrow> NaN | Fin r \<Rightarrow> Fin (- r) | PosInf \<Rightarrow> NegInf | NegInf \<Rightarrow> PosInf)"

definition radix_literal :: "nat \<Rightarrow> string \<Rightarrow> jsnum" where
  "radix_literal base ds = (if ds \<noteq> [] \<and> digits_in base ds then Fin (of_nat (digits_val base ds)) else NaN)"

definition StringToNumber :: "string \<Rightarrow> jsnum" where
  "StringToNumber s =
     (let t = trim s
      in case t of
           [] \<Rightarrow> Fin 0
         | c # r \<Rightarrow>
             if c = CHR ''0'' \<and> r \<noteq> [] \<and> hd r \<in> set ''xX'' then radix_literal 16 (tl r)
             else if c = CHR ''0'' \<and> r \<noteq> [] \<and> hd r \<in> set ''oO'' then radix_literal 8 (tl r)
             else if c = CHR ''0'' \<and> r \<noteq> [] \<and> hd r \<in> set ''bB'' then radix_literal 2 (tl r)
             else if c = CHR ''-'' then jsnum_neg (unsigned_decimal r)
             else if c = CHR ''+'' then unsigned_decimal r
             else unsigned_decimal t)"

text \<open>
  ToNumber. An object is converted through its \<^verbatim>\<open>toString\<close>: a parsed object gives
  \<^verbatim>\<open>"[object Object]"\<close>, hence NaN, unless it has an own property \<open>toString\<close>, which is
  not callable, and then the conversion throws. An array is joined with commas: the empty
  array gives the empty string, a single element its own string (a number survives the
  round trip through its string), and two or more elements a string with a comma in it.
\<close>

fun own_toString :: "js \<Rightarrow> bool" where
  "own_toString (JObj kvs) = (''toString'' \<in> fst ` set kvs)"
| "own_toString (JArr xs) = (\<exists>x \<in> set xs. own_toString x)"
| "own_toString _ = False"

fun ToNumber_total :: "js \<Rightarrow> jsnum" where
  "ToNumber_total Undefined = NaN"
| "ToNumber_total Null = Fin 0"
| "ToNumber_total (JBool b) = Fin (if b then 1 else 0)"
| "ToNumber_total (JNum n) = n"
| "ToNumber_total (JStr s) = StringToNumber s"
| "ToNumber_total (JObj kvs) = NaN"
| "ToNumber_total (JArr []) = Fin 0"
| "ToNumber_total (JArr [x]) =
     (case x of
        Undefined \<Rightarrow> Fin 0
      | Null \<Rightarrow> Fin 0
      | JBool b \<Rightarrow> NaN
      | JNum n \<Rightarrow> n
      | JStr s \<Rightarrow> StringToNumber s
      | JArr ys \<Rightarrow> ToNumber_total (JArr ys)
      | JObj kvs \<Rightarrow> NaN)"
| "ToNumber_total (JArr (x # y # zs)) = NaN"

definition Number :: "js \<Rightarrow> jserr + jsnum" where
  "Number x = (if own_toString x then Inl TypeError else Inr (ToNumber_total x))"

section \<open>The public operations\<close>

text \<open>
  The normalised records. A field typed \<open>string\<close> in the source holds whatever value the
  expression produced; a field typed \<open>number\<close> holds the result of \<^verbatim>\<open>Number(...)\<close>.
\<close>

record StockData =
  sd_symbol :: js
  sd_name :: js
  sd_price :: jsnum
  sd_change :: jsnum
  sd_changePercent :: jsnum
  sd_volume :: jsnum
  sd_marketCap :: jsnum
  sd_high :: jsnum
  sd_low :: jsnum
  sd_open :: jsnum
  sd_close :: jsnum

record CardData =
  cd_symbol :: js
  cd_name :: js
  cd_value :: jsnum
  cd_change :: jsnum
  cd_changePercent :: jsnum
  cd_volume :: jsnum
  cd_type :: string

record ChartData =
  ch_date :: js
  ch_open :: jsnum
  ch_high :: jsnum
  ch_low :: jsnum
  ch_close :: jsnum
  ch_volume :: jsnum

text \<open>\<^verbatim>\<open>Number(e || 0)\<close> and \<^verbatim>\<open>e || fallback\<close>, for an expression \<open>e\<close> that may throw.\<close>

definition num_or0 :: "jserr + js \<Rightarrow> jserr + jsnum" where
  "num_or0 e = bindE e (\<lambda>x. Number (js_or x (JNum (Fin 0))))"

definition str_or :: "jserr + js \<Rightarrow> js \<Rightarrow> jserr + js" where
  "str_or e fallback = bindE e (\<lambda>x. Inr (js_or x fallback))"

text \<open>\<^verbatim>\<open>forEach\<close>, \<^verbatim>\<open>map\<close> and \<^verbatim>\<open>find\<close> with a callback that may throw.\<close>

fun mapE :: "('a \<Rightarrow> jserr + 'b) \<Rightarrow> 'a list \<Rightarrow> jserr + 'b list" where
  "mapE f [] = Inr []"
| "mapE f (x # xs) = bindE (f x) (\<lambda>y. bindE (mapE f xs) (\<lambda>ys. Inr (y # ys)))"

fun findE :: "(js \<Rightarrow> jserr + bool) \<Rightarrow> js list \<Rightarrow> jserr + js" where
  "findE p [] = Inr Undefined"
| "findE p (x # xs) = bindE (p x) (\<lambda>b. if b then Inr x else findE p xs)"

subsection \<open>getStockData\<close>

definition getStockData_body :: "string \<Rightarrow> js \<Rightarrow> jserr + StockData list" where
  "getStockData_body name data =
     bindE (optprop data ''currentPrice'') (\<lambda>cp.
     if \<not> truthy cp then Inr []
     else
       bindE (bindE (bindE (getprop data ''currentPrice'') (\<lambda>c. getprop c ''NSE'')) (\<lambda>nse.
                if truthy nse then Number nse
                else num_or0 (bindE (getprop data ''currentPrice'') (\<lambda>c. getprop c ''BSE'')))) (\<lambda>price.
       bindE (str_or (bindE (getprop data ''stockDetailsReusableData'') (\<lambda>d. optprop d ''tickerId''))
                (JStr name)) (\<lambda>symbol.
       bindE (str_or (getprop data ''companyName'') (JStr name)) (\<lambda>nm.
       bindE (num_or0 (bindE (getprop data ''stockDetailsReusableData'') (\<lambda>d. optprop d ''change''))) (\<lambda>change.
       bindE (num_or0 (getprop data ''percentChange'')) (\<lambda>changePercent.
       bindE (num_or0 (bindE (getprop data ''stockDetailsReusableData'') (\<lambda>d. optprop d ''volume''))) (\<lambda>volume.
       bindE (num_or0 (getprop data ''yearHigh'')) (\<lambda>high.
       bindE (num_or0 (getprop data ''yearLow'')) (\<lambda>low.
       Inr [\<lparr> sd_symbol = symbol, sd_name = nm, sd_price = price, sd_change = change,
              sd_changePercent = changePercent, sd_volume = volume, sd_marketCap = Fin 0,
              sd_high = high, sd_low = low, sd_open = price, sd_close = price \<rparr>])))))))))"

subsection \<open>getTrendingStocks and getMostActiveStocks\<close>

text \<open>
  The object literal of the three callbacks; they differ in the names of the two string
  properties and in the tag.
\<close>

definition cardOf :: "string \<Rightarrow> string \<Rightarrow> string \<Rightarrow> js \<Rightarrow> jserr + CardData" where
  "cardOf symbolKey nameKey tag s =
     bindE (str_or (getprop s symbolKey) (JStr [])) (\<lambda>symbol.
     bindE (str_or (getprop s nameKey) (JStr [])) (\<lambda>nm.
     bindE (num_or0 (getprop s ''price'')) (\<lambda>v.
     bindE (num_or0 (getprop s ''net_change'')) (\<lambda>change.
     bindE (num_or0 (getprop s ''percent_change'')) (\<lambda>changePercent.
     bindE (num_or0 (getprop s ''volume'')) (\<lambda>volume.
     Inr \<lparr> cd_symbol = symbol, cd_name = nm, cd_value = v, cd_change = change,
           cd_changePercent = changePercent, cd_volume = volume, cd_type = tag \<rparr>))))))"

text \<open>\<^verbatim>\<open>data?.trending_stocks?.<key>?.forEach(...)\<close>: the records pushed, in order.\<close>

definition trending_part :: "js \<Rightarrow> string \<Rightarrow> string \<Rightarrow> jserr + CardData list" where
  "trending_part data key tag =
     bindE (optprop data ''trending_stocks'') (\<lambda>ts.
     bindE (optprop ts key) (\<lambda>l.
     if nullish l then Inr []
     else (case l of
             JArr xs \<Rightarrow> mapE (cardOf ''ticker_id'' ''company_name'' tag) xs
           | _ \<Rightarrow> Inl TypeError)))"

definition getTrendingStocks_body :: "js \<Rightarrow> jserr + CardData list" where
  "getTrendingStocks_body data =
     bindE (trending_part data ''top_gainers'' ''gainer'') (\<lambda>gainers.
     bindE (trending_part data ''top_losers'' ''loser'') (\<lambda>losers.
     Inr (gainers @ losers)))"

definition getMostActiveStocks_body :: "js \<Rightarrow> jserr + CardData list" where
  "getMostActiveStocks_body data =
     (case data of
        JArr xs \<Rightarrow> mapE (cardOf ''ticker'' ''company'' ''active'') xs
      | _ \<Rightarrow> Inl TypeError)"

subsection \<open>getHistoricalData\<close>

text \<open>The callback of \<^verbatim>\<open>values.map\<close>; all four prices are \<^verbatim>\<open>Number(v[1])\<close>.\<close>

definition barOf :: "js \<Rightarrow> jserr + ChartData" where
  "barOf v =
     bindE (getidx v 0) (\<lambda>d.
     bindE (bindE (getidx v 1) Number) (\<lambda>p.
     Inr \<lparr> ch_date = d, ch_open = p, ch_high = p, ch_low = p, ch_close = p,
           ch_volume = Fin 0 \<rparr>))"

definition getHistoricalData_body :: "js \<Rightarrow> jserr + ChartData list" where
  "getHistoricalData_body data =
     bindE (bindE (optprop data ''datasets'') (\<lambda>ds. optprop ds ''length'')) (\<lambda>len.
     if \<not> truthy len then Inr []
     else
       bindE (getprop data ''datasets'') (\<lambda>datasets.
       case datasets of
         JArr ds \<Rightarrow>
           bindE (findE (\<lambda>d. bindE (getprop d ''metric'') (\<lambda>m. Inr (m = JStr ''Price''))) ds) (\<lambda>priceSet.
           bindE (optprop priceSet ''values'') (\<lambda>vals.
           if nullish vals then Inr (rev [])
           else (case vals of
                   JArr vs \<Rightarrow> bindE (mapE barOf vs) (\<lambda>bars. Inr (rev bars))
                 | _ \<Rightarrow> Inl TypeError)))
       | _ \<Rightarrow> Inl TypeError))"

subsection \<open>try and catch\<close>

text \<open>
  Every operation is \<^verbatim>\<open>try { const data = await this.fetchWithCache(...); ... } catch
  { return [] }\<close>. \<open>fetched\<close> is how the awaited promise settled.
\<close>

definition try_catch :: "js outcome \<Rightarrow> (js \<Rightarrow> jserr + 'a list) \<Rightarrow> 'a list outcome" where
  "try_catch fetched body =
     (case fetched of
        Rejected error \<Rightarrow> Fulfilled []
      | Fulfilled data \<Rightarrow>
          (case body data of
             Inl thrown \<Rightarrow> Fulfilled []
           | Inr result \<Rightarrow> Fulfilled result))"

definition getStockData :: "string \<Rightarrow> js outcome \<Rightarrow> StockData list outcome" where
  "getStockData name fetched = try_catch fetched (getStockData_body name)"

definition getTrendingStocks :: "js outcome \<Rightarrow> CardData list outcome" where
  "getTrendingStocks fetched = try_catch fetched getTrendingStocks_body"

definition getMostActiveStocks :: "js outcome \<Rightarrow> CardData list outcome" where
  "getMostActiveStocks fetched = try_catch fetched getMostActiveStocks_body"

definition getHistoricalData :: "js outcome \<Rightarrow> ChartData list outcome" where
  "getHistoricalData fetched = try_catch fetched getHistoricalData_body"

section \<open>Example states\<close>

text \<open>
  The governor created at time 10000 after one successful \<^verbatim>\<open>/trending\<close> request and three
  more seconds.
\<close>

definition populated :: gov where
  "populated = \<lparr> cache = [''/trending?'' \<mapsto> (JArr [], 10000)], requestQueue = [],
        isProcessingQueue = False, lastRequestTime = 10000, pendingRequests = Map.empty,
        rateLimitedUntil = 0, retryDelay = 5000, clock = 13000, loops = [],
        settled = [0 \<mapsto> Fulfilled (JArr [])], nextPid = 1,
        fetchLog = [(QItem ''/trending'' [] 0, 10000)], enqueued = [QItem ''/trending'' [] 0],
        dispatched = [(QItem ''/trending'' [] 0, 10000)] \<rparr>"

text \<open>
  The same governor when \<^verbatim>\<open>clearCache\<close> was called while that request was in flight and
  the request was repeated at once: the first answer has filled the cache, the second item
  is still waiting in the queue and its spacing timer is due.
\<close>

definition raced :: gov where
  "raced = \<lparr> cache = [''/trending?'' \<mapsto> (JArr [], 10000)],
        requestQueue = [QItem ''/trending'' [] 1],
        isProcessingQueue = True, lastRequestTime = 10000, pendingRequests = Map.empty,
        rateLimitedUntil = 0, retryDelay = 5000, clock = 12000, loops = [WaitSpacing 12000],
        settled = [0 \<mapsto> Fulfilled (JArr [])], nextPid = 2,
        fetchLog = [(QItem ''/trending'' [] 0, 10000)],
        enqueued = [QItem ''/trending'' [] 0, QItem ''/trending'' [] 1],
        dispatched = [(QItem ''/trending'' [] 0, 10000)] \<rparr>"

text \<open>The populated governor once the validity window of its entry has passed.\<close>

definition expired :: gov where
  "expired = populated\<lparr>clock := 310000\<rparr>"

text \<open>
  Three requests for different keys issued together at time 10000: the first succeeds, the
  second fails in the transport, and the spacing timer for the third is due
  (\<open>third_due\<close>); then the third has been taken from the queue (\<open>three_dispatched\<close>).
\<close>

definition third_due :: gov where
  "third_due = the (run [Fetch ''/trending'' [], Fetch ''/NSE_most_active'' [],
       Fetch ''/stock'' [(''name'', ''TCS'')],
       Respond 0 (Response 200 (Fulfilled ''[]'') (Fulfilled (JArr []))), Resume 0,
       Tick 2000, Timer 0, Respond 0 (NetworkError ''Failed to fetch''), Resume 0,
       Tick 2500] (init 10000))"

definition three_dispatched :: gov where
  "three_dispatched = the (step (Timer 0) third_due)"


text \<open>The governor after a \<^verbatim>\<open>/trending\<close> request whose \<^verbatim>\<open>fetch\<close> was rejected.\<close>

definition failed_once :: gov where
  "failed_once = the (run [Fetch ''/trending'' [], Respond 0 (NetworkError ''Failed to fetch''),
                           Resume 0] (init 10000))"

section \<open>Basic facts about the governor\<close>

lemmas gov_defs = fetchWithCache_def queueRequest_def processQueue_def spawn_def loop_head_def
  after_rate_wait_def dispatch_def request_start_def cache_hit_def clearCache_def
  MIN_REQUEST_INTERVAL_def CACHE_DURATION_def continue_def request_finish_def wrapper_finish_def
  after_request_def settle_def step_def init_def q_key_def cacheKey_def Let_def ok_def

lemma cache_hit_upd [simp]:
  "cache_hit (s\<lparr>requestQueue := a1\<rparr>) k = cache_hit s k"
  "cache_hit (s\<lparr>isProcessingQueue := a2\<rparr>) k = cache_hit s k"
  "cache_hit (s\<lparr>lastRequestTime := a3\<rparr>) k = cache_hit s k"
  "cache_hit (s\<lparr>pendingRequests := a4\<rparr>) k = cache_hit s k"
  "cache_hit (s\<lparr>rateLimitedUntil := a5\<rparr>) k = cache_hit s k"
  "cache_hit (s\<lparr>retryDelay := a6\<rparr>) k = cache_hit s k"
  "cache_hit (s\<lparr>loops := a7\<rparr>) k = cache_hit s k"
  "cache_hit (s\<lparr>settled := a8\<rparr>) k = cache_hit s k"
  "cache_hit (s\<lparr>nextPid := a9\<rparr>) k = cache_hit s k"
  "cache_hit (s\<lparr>fetchLog := b1\<rparr>) k = cache_hit s k"
  "cache_hit (s\<lparr>enqueued := b2\<rparr>) k = cache_hit s k"
  "cache_hit (s\<lparr>dispatched := b3\<rparr>) k = cache_hit s k"
  by (simp_all add: cache_hit_def split: option.splits)

lemma cache_hit_Some_iff:
  "cache_hit s k = Some d \<longleftrightarrow> (\<exists>ts. cache s k = Some (d, ts) \<and> clock s - ts < CACHE_DURATION)"
  by (auto simp: cache_hit_def split: option.splits)

lemma cache_hit_None_iff:
  "cache_hit s k = None \<longleftrightarrow> (\<forall>d ts. cache s k = Some (d, ts) \<longrightarrow> CACHE_DURATION \<le> clock s - ts)"
  by (auto simp: cache_hit_def split: option.splits)

lemma dispatch_frame:
  "cache (fst (dispatch s)) = cache s"
  "pendingRequests (fst (dispatch s)) = pendingRequests s"
  "clock (fst (dispatch s)) = clock s"
  "lastRequestTime (fst (dispatch s)) = lastRequestTime s"
  "rateLimitedUntil (fst (dispatch s)) = rateLimitedUntil s"
  "retryDelay (fst (dispatch s)) = retryDelay s"
  "loops (fst (dispatch s)) = loops s"
  "settled (fst (dispatch s)) = settled s"
  "nextPid (fst (dispatch s)) = nextPid s"
  "enqueued (fst (dispatch s)) = enqueued s"
  by (simp_all add: dispatch_def request_start_def split: list.splits option.splits)

lemma after_rate_wait_frame:
  "cache (fst (after_rate_wait s)) = cache s"
  "pendingRequests (fst (after_rate_wait s)) = pendingRequests s"
  "clock (fst (after_rate_wait s)) = clock s"
  "lastRequestTime (fst (after_rate_wait s)) = lastRequestTime s"
  "rateLimitedUntil (fst (after_rate_wait s)) = rateLimitedUntil s"
  "retryDelay (fst (after_rate_wait s)) = retryDelay s"
  "loops (fst (after_rate_wait s)) = loops s"
  "settled (fst (after_rate_wait s)) = settled s"
  "nextPid (fst (after_rate_wait s)) = nextPid s"
  "enqueued (fst (after_rate_wait s)) = enqueued s"
  by (simp_all add: after_rate_wait_def Let_def dispatch_frame)

lemma loop_head_frame:
  "cache (fst (loop_head s)) = cache s"
  "pendingRequests (fst (loop_head s)) = pendingRequests s"
  "clock (fst (loop_head s)) = clock s"
  "lastRequestTime (fst (loop_head s)) = lastRequestTime s"
  "rateLimitedUntil (fst (loop_head s)) = rateLimitedUntil s"
  "retryDelay (fst (loop_head s)) = retryDelay s"
  "loops (fst (loop_head s)) = loops s"
  "settled (fst (loop_head s)) = settled s"
  "nextPid (fst (loop_head s)) = nextPid s"
  "enqueued (fst (loop_head s)) = enqueued s"
  by (simp_all add: loop_head_def after_rate_wait_frame)

lemma spawn_frame:
  "cache (spawn r) = cache (fst r)"
  "pendingRequests (spawn r) = pendingRequests (fst r)"
  "clock (spawn r) = clock (fst r)"
  "lastRequestTime (spawn r) = lastRequestTime (fst r)"
  "rateLimitedUntil (spawn r) = rateLimitedUntil (fst r)"
  "retryDelay (spawn r) = retryDelay (fst r)"
  "settled (spawn r) = settled (fst r)"
  "nextPid (spawn r) = nextPid (fst r)"
  "enqueued (spawn r) = enqueued (fst r)"
  "requestQueue (spawn r) = requestQueue (fst r)"
  "dispatched (spawn r) = dispatched (fst r)"
  "fetchLog (spawn r) = fetchLog (fst r)"
  "isProcessingQueue (spawn r) = isProcessingQueue (fst r)"
  by (simp_all add: spawn_def split: prod.splits option.splits)

lemma continue_frame:
  "cache (continue i r) = cache (fst r)"
  "pendingRequests (continue i r) = pendingRequests (fst r)"
  "clock (continue i r) = clock (fst r)"
  "lastRequestTime (continue i r) = lastRequestTime (fst r)"
  "rateLimitedUntil (continue i r) = rateLimitedUntil (fst r)"
  "retryDelay (continue i r) = retryDelay (fst r)"
  "settled (continue i r) = settled (fst r)"
  "nextPid (continue i r) = nextPid (fst r)"
  "enqueued (continue i r) = enqueued (fst r)"
  "requestQueue (continue i r) = requestQueue (fst r)"
  "dispatched (continue i r) = dispatched (fst r)"
  "fetchLog (continue i r) = fetchLog (fst r)"
  "isProcessingQueue (continue i r) = isProcessingQueue (fst r)"
  by (simp_all add: continue_def split: prod.splits option.splits)

lemma processQueue_frame:
  "cache (processQueue s) = cache s"
  "pendingRequests (processQueue s) = pendingRequests s"
  "clock (processQueue s) = clock s"
  "lastRequestTime (processQueue s) = lastRequestTime s"
  "rateLimitedUntil (processQueue s) = rateLimitedUntil s"
  "retryDelay (processQueue s) = retryDelay s"
  "settled (processQueue s) = settled s"
  "nextPid (processQueue s) = nextPid s"
  "enqueued (processQueue s) = enqueued s"
  by (simp_all add: processQueue_def spawn_frame loop_head_frame)

lemmas frames = dispatch_frame after_rate_wait_frame loop_head_frame spawn_frame continue_frame
  processQueue_frame

lemma fetchWithCache_hit:
  "cache_hit s (cacheKey e ps) = Some d \<Longrightarrow> fetchWithCache e ps s = (s, Data d)"
  by (simp add: fetchWithCache_def)

lemma fetchWithCache_join:
  "cache_hit s (cacheKey e ps) = None \<Longrightarrow> pendingRequests s (cacheKey e ps) = Some p
   \<Longrightarrow> fetchWithCache e ps s = (s, Pending p)"
  by (simp add: fetchWithCache_def)

lemma fetchWithCache_miss:
  "cache_hit s (cacheKey e ps) = None \<Longrightarrow> pendingRequests s (cacheKey e ps) = None
   \<Longrightarrow> fetchWithCache e ps s =
       ((processQueue (s\<lparr>nextPid := Suc (nextPid s),
                          requestQueue := requestQueue s @ [QItem e ps (nextPid s)],
                          enqueued := enqueued s @ [QItem e ps (nextPid s)]\<rparr>))
          \<lparr>pendingRequests := (pendingRequests s)(cacheKey e ps \<mapsto> nextPid s)\<rparr>,
        Pending (nextPid s))"
  by (simp add: fetchWithCache_def queueRequest_def Let_def processQueue_frame)


lemma fetchWithCache_frame:
  "cache (fst (fetchWithCache e ps s)) = cache s"
  "clock (fst (fetchWithCache e ps s)) = clock s"
  "lastRequestTime (fst (fetchWithCache e ps s)) = lastRequestTime s"
  "rateLimitedUntil (fst (fetchWithCache e ps s)) = rateLimitedUntil s"
  "retryDelay (fst (fetchWithCache e ps s)) = retryDelay s"
  "settled (fst (fetchWithCache e ps s)) = settled s"
  by (simp_all add: fetchWithCache_def queueRequest_def Let_def processQueue_frame
      split: option.splits)


lemmas num_defs = StringToNumber_def trim_def ws1_def ws2_def ws3_def unsigned_decimal_def
  digit_of_def exponent_part_def digits_val_def digits_in_def radix_literal_def jsnum_neg_def Let_def

lemmas op_defs = getStockData_def getTrendingStocks_def getMostActiveStocks_def
  getHistoricalData_def try_catch_def getStockData_body_def getTrendingStocks_body_def
  getMostActiveStocks_body_def getHistoricalData_body_def trending_part_def cardOf_def barOf_def
  num_or0_def str_or_def bindE_def getprop_def optprop_def getidx_def field_def nullish_def
  js_or_def Number_def

section \<open>Case analysis of a step, and invariants\<close>

lemma dispatch_cases [consumes 1, case_names exit hit miss]:
  assumes "dispatch s = r"
  obtains "requestQueue s = []" and "r = (s\<lparr>isProcessingQueue := False\<rparr>, None)"
  | it q d where "requestQueue s = it # q" and "cache_hit s (q_key it) = Some d"
      and "r = (s\<lparr>requestQueue := q, dispatched := dispatched s @ [(it, clock s)]\<rparr>,
                Some (AwaitWrapper it (Fulfilled d)))"
  | it q where "requestQueue s = it # q" and "cache_hit s (q_key it) = None"
      and "r = (s\<lparr>requestQueue := q, dispatched := dispatched s @ [(it, clock s)],
                  fetchLog := fetchLog s @ [(it, clock s)]\<rparr>, Some (AwaitFetch it))"
proof (cases "requestQueue s")
  case Nil
  then show ?thesis using assms that(1) by (simp add: dispatch_def)
next
  case (Cons it q)
  show ?thesis
  proof (cases "cache_hit s (q_key it)")
    case None
    then show ?thesis using assms Cons that(3) [of it q]
      by (simp add: dispatch_def request_start_def)
  next
    case (Some d)
    then show ?thesis using assms Cons that(2) [of it q d]
      by (simp add: dispatch_def request_start_def)
  qed
qed

lemma after_rate_wait_cases [consumes 1, case_names wait go]:
  assumes "after_rate_wait s = r"
  obtains "clock s - lastRequestTime s < MIN_REQUEST_INTERVAL"
      and "r = (s, Some (WaitSpacing (lastRequestTime s + MIN_REQUEST_INTERVAL)))"
  | "MIN_REQUEST_INTERVAL \<le> clock s - lastRequestTime s" and "r = dispatch s"
  using assms by (cases "clock s - lastRequestTime s < MIN_REQUEST_INTERVAL")
    (auto simp: after_rate_wait_def Let_def)

lemma loop_head_cases [consumes 1, case_names exit rate go]:
  assumes "loop_head s = r"
  obtains "requestQueue s = []" and "r = (s\<lparr>isProcessingQueue := False\<rparr>, None)"
  | "requestQueue s \<noteq> []" and "clock s < rateLimitedUntil s"
      and "r = (s, Some (WaitRateLimit (rateLimitedUntil s)))"
  | "requestQueue s \<noteq> []" and "\<not> clock s < rateLimitedUntil s" and "r = after_rate_wait s"
  using assms by (cases "requestQueue s = []"; cases "clock s < rateLimitedUntil s")
    (auto simp: loop_head_def)

lemma inv_loops_single:
  "inv_loops s \<Longrightarrow> i < length (loops s) \<Longrightarrow> i = 0 \<and> loops s = [loops s ! 0] \<and> isProcessingQueue s"
  by (cases "loops s") (auto simp: inv_loops_def)

lemma step_cases [consumes 2, case_names fetch_same fetch_busy fetch_rate fetch_spacing
    fetch_dispatch clear tick timer_spacing timer_exit timer_dispatch respond resume_exit resume_wait]:
  assumes "inv_loops s" and "step e s = Some s'"
  obtains "s' = s"
  | it P where "isProcessingQueue s" and "loops s \<noteq> []"
      and "s' = s\<lparr>nextPid := Suc (nextPid s), requestQueue := requestQueue s @ [it],
                   enqueued := enqueued s @ [it], pendingRequests := P\<rparr>"
  | it P where "loops s = []" and "requestQueue s = []" and "clock s < rateLimitedUntil s"
      and "s' = s\<lparr>nextPid := Suc (nextPid s), requestQueue := [it],
                   enqueued := enqueued s @ [it], isProcessingQueue := True,
                   loops := [WaitRateLimit (rateLimitedUntil s)], pendingRequests := P\<rparr>"
  | it P where "loops s = []" and "requestQueue s = []"
      and "clock s - lastRequestTime s < MIN_REQUEST_INTERVAL"
      and "s' = s\<lparr>nextPid := Suc (nextPid s), requestQueue := [it],
                   enqueued := enqueued s @ [it], isProcessingQueue := True,
                   loops := [WaitSpacing (lastRequestTime s + MIN_REQUEST_INTERVAL)],
                   pendingRequests := P\<rparr>"
  | it P where "loops s = []" and "requestQueue s = []"
      and "MIN_REQUEST_INTERVAL \<le> clock s - lastRequestTime s"
      and "s' = s\<lparr>nextPid := Suc (nextPid s), requestQueue := [],
                   enqueued := enqueued s @ [it], isProcessingQueue := True,
                   dispatched := dispatched s @ [(it, clock s)],
                   fetchLog := fetchLog s @ [(it, clock s)],
                   loops := [AwaitFetch it], pendingRequests := P\<rparr>"
  | "s' = clearCache s"
  | d where "s' = s\<lparr>clock := clock s + int d\<rparr>"
  | due where "loops s = [WaitRateLimit due]"
      and "s' = s\<lparr>loops := [WaitSpacing (lastRequestTime s + MIN_REQUEST_INTERVAL)]\<rparr>"
  | p where "loops s = [p]" and "proc_item p = None" and "requestQueue s = []"
      and "s' = s\<lparr>isProcessingQueue := False, loops := []\<rparr>"
  | p it q p' F where "loops s = [p]" and "proc_item p = None"
      and "MIN_REQUEST_INTERVAL \<le> clock s - lastRequestTime s
           \<or> (\<exists>due. p = WaitSpacing due \<and> due \<le> clock s)"
      and "requestQueue s = it # q" and "proc_item p' = Some it"
      and "s' = s\<lparr>requestQueue := q, dispatched := dispatched s @ [(it, clock s)],
                   fetchLog := F, loops := [p']\<rparr>"
  | it out C P where "loops s = [AwaitFetch it]"
      and "s' = s\<lparr>cache := C, pendingRequests := P, loops := [AwaitWrapper it out]\<rparr>"
  | it out S where "loops s = [AwaitWrapper it out]" and "requestQueue s = []"
      and "q_pid it \<in> dom S" and "dom (settled s) \<subseteq> dom S"
      and "s' = s\<lparr>settled := S, retryDelay := 5000, lastRequestTime := clock s,
                   isProcessingQueue := False, loops := []\<rparr>"
  | it out S p' where "loops s = [AwaitWrapper it out]" and "requestQueue s \<noteq> []"
      and "q_pid it \<in> dom S" and "dom (settled s) \<subseteq> dom S"
      and "p' = WaitSpacing (clock s + MIN_REQUEST_INTERVAL) \<or> (\<exists>due. p' = WaitRateLimit due)"
      and "s' = s\<lparr>settled := S, retryDelay := 5000, lastRequestTime := clock s, loops := [p']\<rparr>"
proof (cases e)
  case (Fetch ep ps)
  let ?k = "cacheKey ep ps"
  let ?it = "QItem ep ps (nextPid s)"
  let ?P = "(pendingRequests s)(?k \<mapsto> nextPid s)"
  show ?thesis
  proof (cases "cache_hit s ?k = None \<and> pendingRequests s ?k = None")
    case False
    then have "s' = s" using assms(2) Fetch
      by (cases "cache_hit s ?k") (auto simp: step_def fetchWithCache_hit fetchWithCache_join)
    then show ?thesis by (rule that(1))
  next
    case True
    then have s': "s' = (processQueue (s\<lparr>nextPid := Suc (nextPid s),
                          requestQueue := requestQueue s @ [?it],
                          enqueued := enqueued s @ [?it]\<rparr>))\<lparr>pendingRequests := ?P\<rparr>"
      using assms(2) Fetch by (simp add: step_def fetchWithCache_miss)
    show ?thesis
    proof (cases "isProcessingQueue s")
      case True
      then have "loops s \<noteq> []" using assms(1) by (simp add: inv_loops_def)
      moreover have "s' = s\<lparr>nextPid := Suc (nextPid s), requestQueue := requestQueue s @ [?it],
                   enqueued := enqueued s @ [?it], pendingRequests := ?P\<rparr>"
        using s' True by (simp add: processQueue_def)
      ultimately show ?thesis using True that(2) by blast
    next
      case False
      then have e: "loops s = []" "requestQueue s = []"
        using assms(1) by (simp_all add: inv_loops_def)
      let ?t = "s\<lparr>nextPid := Suc (nextPid s), requestQueue := requestQueue s @ [?it],
                   enqueued := enqueued s @ [?it], isProcessingQueue := True\<rparr>"
      have s'': "s' = (spawn (loop_head ?t))\<lparr>pendingRequests := ?P\<rparr>"
        using s' False by (simp add: processQueue_def)
      have hit: "cache_hit ?t (q_key ?it) = None"
        using True by (simp add: q_key_def)
      show ?thesis
      proof (cases "clock s < rateLimitedUntil s")
        case True
        then have "s' = s\<lparr>nextPid := Suc (nextPid s), requestQueue := [?it],
                   enqueued := enqueued s @ [?it], isProcessingQueue := True,
                   loops := [WaitRateLimit (rateLimitedUntil s)], pendingRequests := ?P\<rparr>"
          using s'' e by (simp add: loop_head_def spawn_def)
        then show ?thesis using that(3) e True by blast
      next
        case nr: False
        show ?thesis
        proof (cases "clock s - lastRequestTime s < MIN_REQUEST_INTERVAL")
          case True
          then have "s' = s\<lparr>nextPid := Suc (nextPid s), requestQueue := [?it],
                   enqueued := enqueued s @ [?it], isProcessingQueue := True,
                   loops := [WaitSpacing (lastRequestTime s + MIN_REQUEST_INTERVAL)],
                   pendingRequests := ?P\<rparr>"
            using s'' e nr by (simp add: loop_head_def after_rate_wait_def Let_def spawn_def)
          then show ?thesis using that(4) e True by blast
        next
          case False
          then have "s' = s\<lparr>nextPid := Suc (nextPid s), requestQueue := [],
                   enqueued := enqueued s @ [?it], isProcessingQueue := True,
                   dispatched := dispatched s @ [(?it, clock s)],
                   fetchLog := fetchLog s @ [(?it, clock s)],
                   loops := [AwaitFetch ?it], pendingRequests := ?P\<rparr>"
            using s'' e nr hit
            by (simp add: loop_head_def after_rate_wait_def Let_def spawn_def dispatch_def
                request_start_def)
          then show ?thesis using that(5) e False by force
        qed
      qed
    qed
  qed
next
  case ClearCache
  then show ?thesis using assms(2) that(6) by (auto simp: step_def)
next
  case (Tick d)
  then show ?thesis using assms(2) that(7) by (auto simp: step_def)
next
  case (Timer i)
  then have i: "i < length (loops s)" using assms(2) by (simp add: step_def split: if_splits)
  note sg = inv_loops_single [OF assms(1) i]
  then have i0: "i = 0" by simp
  obtain p where p: "loops s = [p]" using sg by metis
  have disp: thesis if "s' = continue 0 (dispatch s)" and "proc_item p = None"
    and "MIN_REQUEST_INTERVAL \<le> clock s - lastRequestTime s
           \<or> (\<exists>due. p = WaitSpacing due \<and> due \<le> clock s)"
  proof -
    obtain r where r: "dispatch s = r" by simp
    from r show thesis
    proof (cases rule: dispatch_cases)
      case exit
      then have "s' = s\<lparr>isProcessingQueue := False, loops := []\<rparr>"
        using that(1) r p by (simp add: continue_def)
      then show ?thesis using that(2) p exit \<open>\<And>p. \<lbrakk>loops s = [p]; proc_item p = None; requestQueue s = [];
          s' = s\<lparr>isProcessingQueue := False, loops := []\<rparr>\<rbrakk> \<Longrightarrow> thesis\<close> by blast
    next
      case (hit it q d)
      then have "s' = s\<lparr>requestQueue := q, dispatched := dispatched s @ [(it, clock s)],
                   fetchLog := fetchLog s, loops := [AwaitWrapper it (Fulfilled d)]\<rparr>"
        using that(1) r p by (simp add: continue_def)
      then show ?thesis using that(2,3) p hit
          \<open>\<And>p it q p' F. \<lbrakk>loops s = [p]; proc_item p = None;
            MIN_REQUEST_INTERVAL \<le> clock s - lastRequestTime s \<or> (\<exists>due. p = WaitSpacing due \<and> due \<le> clock s);
            requestQueue s = it # q; proc_item p' = Some it;
            s' = s\<lparr>requestQueue := q, dispatched := dispatched s @ [(it, clock s)],
                   fetchLog := F, loops := [p']\<rparr>\<rbrakk> \<Longrightarrow> thesis\<close>
          [of p it q "AwaitWrapper it (Fulfilled d)" "fetchLog s"] by simp
    next
      case (miss it q)
      then have "s' = s\<lparr>requestQueue := q, dispatched := dispatched s @ [(it, clock s)],
                   fetchLog := fetchLog s @ [(it, clock s)], loops := [AwaitFetch it]\<rparr>"
        using that(1) r p by (simp add: continue_def)
      then show ?thesis using that(2,3) p miss
          \<open>\<And>p it q p' F. \<lbrakk>loops s = [p]; proc_item p = None;
            MIN_REQUEST_INTERVAL \<le> clock s - lastRequestTime s \<or> (\<exists>due. p = WaitSpacing due \<and> due \<le> clock s);
            requestQueue s = it # q; proc_item p' = Some it;
            s' = s\<lparr>requestQueue := q, dispatched := dispatched s @ [(it, clock s)],
                   fetchLog := F, loops := [p']\<rparr>\<rbrakk> \<Longrightarrow> thesis\<close>
          [of p it q "AwaitFetch it" "fetchLog s @ [(it, clock s)]"] by simp
    qed
  qed
  show ?thesis
  proof (cases p)
    case (WaitRateLimit due)
    then have s': "s' = continue 0 (after_rate_wait s)"
      using assms(2) Timer i0 p by (simp add: step_def split: if_splits)
    show ?thesis
    proof (cases "clock s - lastRequestTime s < MIN_REQUEST_INTERVAL")
      case True
      then have "s' = s\<lparr>loops := [WaitSpacing (lastRequestTime s + MIN_REQUEST_INTERVAL)]\<rparr>"
        using s' p by (simp add: after_rate_wait_def Let_def continue_def)
      then show ?thesis using that(8) p WaitRateLimit by blast
    next
      case False
      then have "s' = continue 0 (dispatch s)"
        using s' by (simp add: after_rate_wait_def Let_def)
      then show ?thesis using disp WaitRateLimit False by simp
    qed
  next
    case (WaitSpacing due)
    then have "s' = continue 0 (dispatch s)" and "due \<le> clock s"
      using assms(2) Timer i0 p by (simp_all add: step_def split: if_splits)
    then show ?thesis using disp WaitSpacing by simp
  next
    case (AwaitFetch it)
    then show ?thesis using assms(2) Timer i0 p by (simp add: step_def)
  next
    case (AwaitWrapper it out)
    then show ?thesis using assms(2) Timer i0 p by (simp add: step_def)
  qed
next
  case (Respond i r)
  then have i: "i < length (loops s)" using assms(2) by (simp add: step_def split: if_splits)
  note sg = inv_loops_single [OF assms(1) i]
  then have i0: "i = 0" by simp
  obtain p where p: "loops s = [p]" using sg by metis
  obtain it where it: "p = AwaitFetch it"
    using assms(2) Respond i0 p by (cases p) (simp_all add: step_def)
  have "s' = s\<lparr>cache := cache (fst (request_finish it r s)),
                pendingRequests := pendingRequests (fst (request_finish it r s)),
                loops := [AwaitWrapper it (snd (request_finish it r s))]\<rparr>"
    using assms(2) Respond i0 p it
    by (auto simp: step_def request_finish_def split: fetch_result.splits outcome.splits)
  then show ?thesis using that(11) p it by blast
next
  case (Resume i)
  then have i: "i < length (loops s)" using assms(2) by (simp add: step_def split: if_splits)
  note sg = inv_loops_single [OF assms(1) i]
  then have i0: "i = 0" by simp
  obtain p where p: "loops s = [p]" using sg by metis
  obtain it out where it: "p = AwaitWrapper it out"
    using assms(2) Resume i0 p by (cases p) (simp_all add: step_def)
  let ?S = "settled (settle (q_pid it) out s)"
  let ?t = "s\<lparr>settled := ?S, retryDelay := 5000, lastRequestTime := clock s\<rparr>"
  have S: "q_pid it \<in> dom ?S" "dom (settled s) \<subseteq> dom ?S"
    by (auto simp: settle_def)
  have t: "after_request (snd (wrapper_finish it out s)) (fst (wrapper_finish it out s)) = ?t"
    by (cases out) (simp_all add: wrapper_finish_def after_request_def settle_def)
  have s': "s' = continue 0 (loop_head ?t)"
    using assms(2) Resume i0 p it t by (simp add: step_def split: prod.splits)
  show ?thesis
  proof (cases "requestQueue s = []")
    case True
    then have "s' = s\<lparr>settled := ?S, retryDelay := 5000, lastRequestTime := clock s,
                   isProcessingQueue := False, loops := []\<rparr>"
      using s' p by (simp add: loop_head_def continue_def)
    then show ?thesis using that(12) p it True S by blast
  next
    case False
    show ?thesis
    proof (cases "clock s < rateLimitedUntil s")
      case True
      then have "s' = s\<lparr>settled := ?S, retryDelay := 5000, lastRequestTime := clock s,
                     loops := [WaitRateLimit (rateLimitedUntil s)]\<rparr>"
        using s' p False by (simp add: loop_head_def continue_def)
      then show ?thesis using that(13) p it False S by blast
    next
      case nr: False
      then have "s' = s\<lparr>settled := ?S, retryDelay := 5000, lastRequestTime := clock s,
                     loops := [WaitSpacing (clock s + MIN_REQUEST_INTERVAL)]\<rparr>"
        using s' p False
        by (simp add: loop_head_def after_rate_wait_def Let_def continue_def
            MIN_REQUEST_INTERVAL_def)
      then show ?thesis using that(13) p it False S by blast
    qed
  qed
qed

lemma spaced_snoc:
  "spaced (ts @ [c]) \<longleftrightarrow> spaced ts \<and> (ts = [] \<or> MIN_REQUEST_INTERVAL \<le> c - last ts)"
  by (induction ts rule: spaced.induct) auto

lemma spaced_snoc_bound:
  assumes "spaced ts" and "\<forall>t \<in> set ts. t \<le> b" and "b + MIN_REQUEST_INTERVAL \<le> c"
  shows "spaced (ts @ [c])"
proof (cases "ts = []")
  case True
  then show ?thesis by simp
next
  case False
  then have "last ts \<le> b" using assms(2) by simp
  then show ?thesis using assms(1,3) False by (simp add: spaced_snoc)
qed

lemma inv_loops_step:
  assumes "inv_loops s" and "step e s = Some s'"
  shows "inv_loops s'"
  using assms by (cases rule: step_cases) (use assms(1) in \<open>auto simp: inv_loops_def clearCache_def\<close>)

lemma inv_fifo_step:
  assumes "inv_loops s" and "step e s = Some s'" and "inv_fifo s"
  shows "inv_fifo s'"
  using assms by (cases rule: step_cases) (auto simp: inv_fifo_def clearCache_def)

lemma inv_spacing_step:
  assumes "inv_loops s" and "step e s = Some s'" and "inv_spacing s"
  shows "inv_spacing s'"
  using assms(1,2)
proof (cases rule: step_cases)
  case (fetch_dispatch it P)
  then show ?thesis using assms(3)
    by (auto simp: inv_spacing_def intro!: spaced_snoc_bound [where b = "lastRequestTime s"])
next
  case (timer_dispatch p it q p' F)
  then have "lastRequestTime s + MIN_REQUEST_INTERVAL \<le> clock s"
    using assms(3) by (auto simp: inv_spacing_def)
  then show ?thesis using assms(3) timer_dispatch
    by (cases p') (auto simp: inv_spacing_def intro!: spaced_snoc_bound [where b = "lastRequestTime s"])
qed (use assms(3) in \<open>auto simp: inv_spacing_def clearCache_def MIN_REQUEST_INTERVAL_def\<close>)

lemma in_set_last_butlast: "x \<in> set xs \<Longrightarrow> x = last xs \<or> x \<in> set (butlast xs)"
  by (induction xs) (auto split: if_splits)

lemma inv_done_busy:
  assumes "inv_done s" and "loops s = [p]" and "proc_item p = Some it"
    and "(a, b) \<in> set (dispatched s)" and "q_pid it \<in> dom S" and "dom (settled s) \<subseteq> dom S"
  shows "q_pid a \<in> dom S"
proof -
  have l: "fst (last (dispatched s)) = it"
    and b: "\<forall>it' \<in> set (map fst (butlast (dispatched s))). q_pid it' \<in> dom (settled s)"
    using assms(1,2,3) by (auto simp: inv_done_def)
  from in_set_last_butlast [OF assms(4)] show ?thesis
  proof
    assume "(a, b) = last (dispatched s)"
    then have "a = it" using l by (metis fst_conv)
    then show ?thesis using assms(5) by simp
  next
    assume "(a, b) \<in> set (butlast (dispatched s))"
    then have "a \<in> set (map fst (butlast (dispatched s)))" by force
    then show ?thesis using b assms(6) by blast
  qed
qed

lemma inv_done_step:
  assumes "inv_loops s" and "step e s = Some s'" and "inv_done s"
  shows "inv_done s'"
  using assms(1,2)
proof (cases rule: step_cases)
  case (resume_exit it out S)
  have "\<forall>x \<in> set (dispatched s). q_pid (fst x) \<in> dom S"
  proof
    fix x
    assume "x \<in> set (dispatched s)"
    then have "(fst x, snd x) \<in> set (dispatched s)" by simp
    from inv_done_busy [OF assms(3) resume_exit(1) _ this resume_exit(3,4)]
    show "q_pid (fst x) \<in> dom S" by simp
  qed
  then show ?thesis using resume_exit by (simp add: inv_done_def)
next
  case (resume_wait it out S p')
  have "\<forall>x \<in> set (dispatched s). q_pid (fst x) \<in> dom S"
  proof
    fix x
    assume "x \<in> set (dispatched s)"
    then have "(fst x, snd x) \<in> set (dispatched s)" by simp
    from inv_done_busy [OF assms(3) resume_wait(1) _ this resume_wait(3,4)]
    show "q_pid (fst x) \<in> dom S" by simp
  qed
  then show ?thesis using resume_wait by (auto simp: inv_done_def)
qed (use assms(3) in \<open>auto simp: inv_done_def clearCache_def\<close>)

lemma inv_pending_step:
  assumes inv: "inv_pending s" and st: "step e s = Some s'"
  shows "inv_pending s'"
  unfolding inv_pending_def
proof (intro allI impI)
  fix k d ts
  assume p: "pendingRequests s' k \<noteq> None" and c: "cache s' k = Some (d, ts)"
  have old: "pendingRequests s k \<noteq> None \<Longrightarrow> cache s k = Some (d, ts) \<Longrightarrow> CACHE_DURATION \<le> clock s - ts"
    using inv unfolding inv_pending_def by blast
  show "CACHE_DURATION \<le> clock s' - ts"
  proof (cases e)
    case (Fetch ep ps)
    then show ?thesis using st p c old
      by (auto simp: step_def fetchWithCache_def queueRequest_def Let_def cache_hit_None_iff
          processQueue_frame split: option.splits prod.splits if_splits)
  next
    case ClearCache
    then show ?thesis using st p c old by (auto simp: step_def clearCache_def)
  next
    case (Tick n)
    then show ?thesis using st p c old by (auto simp: step_def)
  next
    case (Timer i)
    then show ?thesis using st p c old
      by (auto simp: step_def frames split: proc.splits if_splits)
  next
    case (Respond i r)
    then show ?thesis using st p c old
      by (auto simp: step_def request_finish_def CACHE_DURATION_def
          split: proc.splits if_splits fetch_result.splits outcome.splits)
  next
    case (Resume i)
    then show ?thesis using st p c old
      by (auto simp: step_def frames wrapper_finish_def after_request_def settle_def Let_def
          split: proc.splits if_splits outcome.splits)
  qed
qed

lemma reachable_invariants:
  assumes "reachable s"
  shows "inv_loops s \<and> inv_fifo s \<and> inv_spacing s \<and> inv_done s \<and> inv_pending s"
  using assms
proof (induction rule: reachable.induct)
  case (reach_init t0)
  then show ?case
    by (simp add: init_def inv_loops_def inv_fifo_def inv_spacing_def inv_done_def inv_pending_def)
next
  case (reach_step s e s')
  then show ?case
    using inv_loops_step inv_fifo_step inv_spacing_step inv_done_step inv_pending_step by blast
qed

lemma run_reachable: "reachable s \<Longrightarrow> run evs s = Some s' \<Longrightarrow> reachable s'"
proof (induction evs arbitrary: s)
  case Nil
  then show ?case by simp
next
  case (Cons e evs)
  then show ?case by (auto split: option.splits intro: reachable.reach_step)
qed


lemma dequeue_step:
  assumes "inv_loops s" and "step e s = Some s'" and "dispatched s' \<noteq> dispatched s"
    and "inv_done s"
  shows "(\<forall>p \<in> set (loops s). proc_item p = None)
       \<and> (\<forall>it \<in> set (map fst (dispatched s)). q_pid it \<in> dom (settled s))
       \<and> (\<exists>it. dispatched s' = dispatched s @ [(it, clock s)])"
  using assms(1,2)
  by (cases rule: step_cases) (use assms(3,4) in \<open>auto simp: inv_done_def clearCache_def\<close>)

text \<open>
  The back-off state never leaves its initial value: in no reachable state is a lockout
  set or the retry delay different from its floor.
\<close>

lemma backoff_step:
  assumes "step e s = Some s'" and "rateLimitedUntil s = 0 \<and> retryDelay s = 5000"
  shows "rateLimitedUntil s' = 0 \<and> retryDelay s' = 5000"
proof (cases e)
  case (Fetch ep ps)
  then show ?thesis using assms by (auto simp: step_def fetchWithCache_frame)
next
  case ClearCache
  then show ?thesis using assms by (auto simp: step_def clearCache_def)
next
  case (Tick n)
  then show ?thesis using assms by (auto simp: step_def)
next
  case (Timer i)
  then show ?thesis using assms
    by (auto simp: step_def frames split: proc.splits if_splits)
next
  case (Respond i r)
  then show ?thesis using assms
    by (auto simp: step_def request_finish_def
        split: proc.splits if_splits fetch_result.splits outcome.splits)
next
  case (Resume i)
  then show ?thesis using assms
    by (auto simp: step_def frames wrapper_finish_def after_request_def settle_def Let_def
        split: proc.splits if_splits outcome.splits)
qed

lemma backoff_never_engages:
  "reachable s \<Longrightarrow> rateLimitedUntil s = 0 \<and> retryDelay s = 5000"
proof (induction rule: reachable.induct)
  case (reach_init t0)
  then show ?case by (simp add: init_def)
next
  case (reach_step s e s')
  then show ?case using backoff_step by blast
qed

section \<open>The example states are reachable\<close>

lemma populated_trace:
  "run [Fetch ''/trending'' [], Respond 0 (Response 200 (Fulfilled ''[]'') (Fulfilled (JArr []))),
        Resume 0, Tick 3000] (init 10000) = Some populated"
  by (simp add: gov_defs populated_def)

lemma raced_trace:
  "run [Fetch ''/trending'' [], ClearCache, Fetch ''/trending'' [],
        Respond 0 (Response 200 (Fulfilled ''[]'') (Fulfilled (JArr []))),
        Resume 0, Tick 2000] (init 10000) = Some raced"
  by (simp add: gov_defs raced_def)

lemma expired_trace:
  "run [Fetch ''/trending'' [], Respond 0 (Response 200 (Fulfilled ''[]'') (Fulfilled (JArr []))),
        Resume 0, Tick 3000, Tick 297000] (init 10000) = Some expired"
  by (simp add: gov_defs populated_def expired_def)

lemmas enc_defs = urlencode_def encodeByte_def unreserved_def hexdigit_def

lemma some_the: "x \<noteq> None \<Longrightarrow> x = Some (the x)"
  by auto

lemma third_due_reachable: "reachable third_due"
proof -
  let ?evs = "[Fetch ''/trending'' [], Fetch ''/NSE_most_active'' [],
       Fetch ''/stock'' [(''name'', ''TCS'')],
       Respond 0 (Response 200 (Fulfilled ''[]'') (Fulfilled (JArr []))), Resume 0,
       Tick 2000, Timer 0, Respond 0 (NetworkError ''Failed to fetch''), Resume 0,
       Tick 2500]"
  have "run ?evs (init 10000) \<noteq> None"
    by (simp add: gov_defs enc_defs)
  then have "run ?evs (init 10000) = Some third_due"
    unfolding third_due_def by (rule some_the)
  moreover have "reachable (init 10000)" by (rule reachable.reach_init) simp
  ultimately show ?thesis using run_reachable by blast
qed

lemma third_due_fields:
  "loops third_due = [WaitSpacing 14000]"
  "clock third_due = 14500"
  "requestQueue third_due = [QItem ''/stock'' [(''name'', ''TCS'')] 2]"
  "dispatched third_due = [(QItem ''/trending'' [] 0, 10000), (QItem ''/NSE_most_active'' [] 1, 12000)]"
  "settled third_due 0 = Some (Fulfilled (JArr []))"
  "settled third_due (Suc 0) = Some (Rejected ''Failed to fetch'')"
  by (simp_all add: third_due_def gov_defs enc_defs)

lemma three_dispatched_step: "step (Timer 0) third_due = Some three_dispatched"
proof -
  have "step (Timer 0) third_due \<noteq> None"
    by (simp add: step_def third_due_fields)
  then show ?thesis unfolding three_dispatched_def by (rule some_the)
qed

lemma three_dispatched_fields:
  "dispatched three_dispatched =
     [(QItem ''/trending'' [] 0, 10000), (QItem ''/NSE_most_active'' [] 1, 12000),
      (QItem ''/stock'' [(''name'', ''TCS'')] 2, 14500)]"
  "enqueued three_dispatched =
     [QItem ''/trending'' [] 0, QItem ''/NSE_most_active'' [] 1,
      QItem ''/stock'' [(''name'', ''TCS'')] 2]"
  "loops three_dispatched = [AwaitFetch (QItem ''/stock'' [(''name'', ''TCS'')] 2)]"
  by (simp_all add: three_dispatched_def third_due_def gov_defs enc_defs)

section \<open>Sharing of in-flight requests\<close>





section \<open>Failures of a queued fetch\<close>

text \<open>
  C2: a queued fetch whose \<^verbatim>\<open>fetch\<close> call rejects, or whose body is not JSON, leaves its
  registration in \<open>pendingRequests\<close>: the closure throws before it reaches either
  \<^verbatim>\<open>pendingRequests.delete\<close>. Here the transport fails once; ten minutes later the same
  request is handed the promise that was rejected then, and nothing is fetched.
\<close>

theorem transport_error_keeps_registration:
  "run [Fetch ''/trending'' [], Respond 0 (NetworkError ''Failed to fetch''), Resume 0,
        Tick 600000, Fetch ''/trending'' []] (init 10000)
   = Some \<lparr> cache = Map.empty, requestQueue = [], isProcessingQueue = False,
        lastRequestTime = 10000, pendingRequests = [''/trending?'' \<mapsto> 0],
        rateLimitedUntil = 0, retryDelay = 5000, clock = 610000, loops = [],
        settled = [0 \<mapsto> Rejected ''Failed to fetch''], nextPid = 1,
        fetchLog = [(QItem ''/trending'' [] 0, 10000)], enqueued = [QItem ''/trending'' [] 0],
        dispatched = [(QItem ''/trending'' [] 0, 10000)] \<rparr>
   \<and> request_finish it (NetworkError msg) s = (s, Rejected msg)
   \<and> request_finish it (Response 200 txt (Rejected msg)) s = (s, Rejected msg)"
  by (simp add: gov_defs)

text \<open>
  C4: the wrapper pushed by \<^verbatim>\<open>queueRequest\<close> catches the item's error and returns
  normally, so the \<^verbatim>\<open>catch\<close> of \<^verbatim>\<open>processQueue\<close> never runs: whatever the outcome of the
  item, \<open>rateLimitedUntil\<close> keeps its value and \<open>retryDelay\<close> is set to 5000. Here the
  provider answers 429.
\<close>

theorem rate_limit_signal_never_reaches_backoff:
  "run [Fetch ''/trending'' [],
        Respond 0 (Response 429 (Fulfilled ''Too Many Requests'') (Rejected ''Unexpected token'')),
        Resume 0] (init 10000)
   = Some \<lparr> cache = Map.empty, requestQueue = [], isProcessingQueue = False,
        lastRequestTime = 10000, pendingRequests = Map.empty, rateLimitedUntil = 0,
        retryDelay = 5000, clock = 10000, loops = [],
        settled = [0 \<mapsto> Rejected ''API request failed: 429 - Too Many Requests''], nextPid = 1,
        fetchLog = [(QItem ''/trending'' [] 0, 10000)], enqueued = [QItem ''/trending'' [] 0],
        dispatched = [(QItem ''/trending'' [] 0, 10000)] \<rparr>
   \<and> str_includes ''API request failed: 429 - Too Many Requests'' ''429''
   \<and> snd (wrapper_finish it out s) = Fulfilled ()
   \<and> rateLimitedUntil (after_request (snd (wrapper_finish it out s)) (fst (wrapper_finish it out s)))
       = rateLimitedUntil s
   \<and> retryDelay (after_request (snd (wrapper_finish it out s)) (fst (wrapper_finish it out s)))
       = 5000"
  by (simp add: gov_defs show_nat.simps split: outcome.splits)

section \<open>Order and pace of dispatch\<close>

text \<open>
  C3: in every state the governor can reach, the items taken from the queue so far,
  followed by the items still queued, are the items pushed, in the order they were pushed
  (FIFO). At most one invocation of \<^verbatim>\<open>processQueue\<close> is suspended, so at most one item and
  at most one \<^verbatim>\<open>fetch\<close> is in progress. The times at which successive items were taken
  from the queue are at least 2000 ms apart. A step that takes an item from the queue takes
  exactly one, and only when no item is in progress and the promise of every item taken
  before has been settled, by success or by failure.
\<close>

theorem fifo_one_at_a_time_spaced:
  assumes "reachable s"
  shows "map fst (dispatched s) @ requestQueue s = enqueued s
       \<and> length (loops s) \<le> 1
       \<and> spaced (map snd (dispatched s))
       \<and> (\<forall>e s'. step e s = Some s' \<and> dispatched s' \<noteq> dispatched s \<longrightarrow>
            (\<forall>p \<in> set (loops s). proc_item p = None)
          \<and> (\<forall>it \<in> set (map fst (dispatched s)). q_pid it \<in> dom (settled s))
          \<and> (\<exists>it. dispatched s' = dispatched s @ [(it, clock s)]))"
proof -
  have i: "inv_loops s" "inv_fifo s" "inv_spacing s" "inv_done s"
    using assms reachable_invariants by blast+
  have "(\<forall>p \<in> set (loops s). proc_item p = None)
          \<and> (\<forall>it \<in> set (map fst (dispatched s)). q_pid it \<in> dom (settled s))
          \<and> (\<exists>it. dispatched s' = dispatched s @ [(it, clock s)])"
    if "step e s = Some s' \<and> dispatched s' \<noteq> dispatched s" for e s'
    using dequeue_step [OF i(1) _ _ i(4)] that by blast
  then show ?thesis using i(1,2,3)
    unfolding inv_loops_def inv_fifo_def inv_spacing_def by blast
qed

theorem fifo_one_at_a_time_spaced_witness:
  "reachable third_due \<and> reachable three_dispatched
   \<and> step (Timer 0) third_due = Some three_dispatched
   \<and> dispatched three_dispatched \<noteq> dispatched third_due
   \<and> map fst (dispatched three_dispatched) = enqueued three_dispatched
   \<and> requestQueue three_dispatched = []
   \<and> map snd (dispatched three_dispatched) = [10000, 12000, 14500]
   \<and> spaced [10000, 12000, 14500]
   \<and> loops third_due = [WaitSpacing 14000]
   \<and> q_pid (QItem ''/NSE_most_active'' [] 1) \<in> dom (settled third_due)"
proof -
  have r: "reachable three_dispatched"
    using third_due_reachable three_dispatched_step by (rule reachable.reach_step)
  have n: "dispatched three_dispatched \<noteq> dispatched third_due"
    by (simp add: third_due_fields three_dispatched_fields)
  show ?thesis
    using fifo_one_at_a_time_spaced [OF third_due_reachable]
      fifo_one_at_a_time_spaced [OF r] third_due_reachable r three_dispatched_step n
    by (simp add: third_due_fields three_dispatched_fields domIff)
qed

section \<open>The validity window of a cache entry\<close>



section \<open>The public operations never reject\<close>

text \<open>
  C6: \<^verbatim>\<open>getStockData\<close>, \<^verbatim>\<open>getTrendingStocks\<close>, \<^verbatim>\<open>getMostActiveStocks\<close> and
  \<^verbatim>\<open>getHistoricalData\<close> always resolve. When the promise of \<^verbatim>\<open>fetchWithCache\<close> is
  rejected (transport error, status outside 2xx, body that is not JSON) they resolve to the
  empty list, and so they do when the payload has a shape on which the normalisation
  throws.
\<close>

theorem operations_never_reject:
  "getStockData name (Rejected e) = Fulfilled []
   \<and> getTrendingStocks (Rejected e) = Fulfilled []
   \<and> getMostActiveStocks (Rejected e) = Fulfilled []
   \<and> getHistoricalData (Rejected e) = Fulfilled []
   \<and> (\<exists>r. getStockData name fetched = Fulfilled r)
   \<and> (\<exists>r. getTrendingStocks fetched = Fulfilled r)
   \<and> (\<exists>r. getMostActiveStocks fetched = Fulfilled r)
   \<and> (\<exists>r. getHistoricalData fetched = Fulfilled r)
   \<and> (getStockData_body name data = Inl thrown \<longrightarrow> getStockData name (Fulfilled data) = Fulfilled [])
   \<and> (getTrendingStocks_body data = Inl thrown \<longrightarrow> getTrendingStocks (Fulfilled data) = Fulfilled [])
   \<and> (getMostActiveStocks_body data = Inl thrown \<longrightarrow> getMostActiveStocks (Fulfilled data) = Fulfilled [])
   \<and> (getHistoricalData_body data = Inl thrown \<longrightarrow> getHistoricalData (Fulfilled data) = Fulfilled [])"
  by (simp add: getStockData_def getTrendingStocks_def getMostActiveStocks_def
      getHistoricalData_def try_catch_def split: outcome.splits sum.splits)

lemma failed_once_settled: "settled failed_once 0 = Some (Rejected ''Failed to fetch'')"
  by (simp add: failed_once_def gov_defs)

theorem operations_never_reject_witness:
  "settled failed_once 0 = Some (Rejected ''Failed to fetch'')
   \<and> getTrendingStocks (the (settled failed_once 0)) = Fulfilled []
   \<and> getStockData_body ''TCS'' (JObj [(''currentPrice'', JObj [(''NSE'', JObj [(''toString'', Null)])])])
       = Inl TypeError
   \<and> getStockData ''TCS'' (Fulfilled (JObj [(''currentPrice'', JObj [(''NSE'', JObj [(''toString'', Null)])])]))
       = Fulfilled []
   \<and> getTrendingStocks_body (JObj [(''trending_stocks'', JObj [(''top_gainers'', JArr [Null])])])
       = Inl TypeError
   \<and> getTrendingStocks (Fulfilled (JObj [(''trending_stocks'', JObj [(''top_gainers'', JArr [Null])])]))
       = Fulfilled []
   \<and> getMostActiveStocks_body (JObj [(''error'', JStr ''quota'')]) = Inl TypeError
   \<and> getMostActiveStocks (Fulfilled (JObj [(''error'', JStr ''quota'')])) = Fulfilled []
   \<and> getHistoricalData_body (JObj [(''datasets'', JStr ''none'')]) = Inl TypeError
   \<and> getHistoricalData (Fulfilled (JObj [(''datasets'', JStr ''none'')])) = Fulfilled []"
  using operations_never_reject [of "''TCS''" "''Failed to fetch''" "Fulfilled Null"
      "JObj [(''currentPrice'', JObj [(''NSE'', JObj [(''toString'', Null)])])]" TypeError]
    operations_never_reject [of "''TCS''" "''Failed to fetch''" "Fulfilled Null"
      "JObj [(''trending_stocks'', JObj [(''top_gainers'', JArr [Null])])]" TypeError]
    operations_never_reject [of "''TCS''" "''Failed to fetch''" "Fulfilled Null"
      "JObj [(''error'', JStr ''quota'')]" TypeError]
    operations_never_reject [of "''TCS''" "''Failed to fetch''" "Fulfilled Null"
      "JObj [(''datasets'', JStr ''none'')]" TypeError]
  by (simp add: failed_once_settled getStockData_body_def getTrendingStocks_body_def
      getMostActiveStocks_body_def getHistoricalData_body_def trending_part_def cardOf_def
      num_or0_def str_or_def bindE_def getprop_def optprop_def field_def nullish_def
      js_or_def Number_def)

section \<open>The cache key and the order of parameters\<close>

lemma hexdigit_inj: "i < 16 \<Longrightarrow> j < 16 \<Longrightarrow> hexdigit i = hexdigit j \<Longrightarrow> i = j"
proof -
  have d: "distinct ''0123456789ABCDEF''" by simp
  have l: "length ''0123456789ABCDEF'' = 16" by simp
  show "i < 16 \<Longrightarrow> j < 16 \<Longrightarrow> hexdigit i = hexdigit j \<Longrightarrow> i = j"
    unfolding hexdigit_def using d l by (metis nth_eq_iff_index_eq)
qed

lemma hexdigit_pair_inj:
  assumes "hexdigit ((of_char c :: nat) div 16) = hexdigit ((of_char c' :: nat) div 16)"
    and "hexdigit ((of_char c :: nat) mod 16) = hexdigit ((of_char c' :: nat) mod 16)"
  shows "c = c'"
proof -
  have b: "(of_char c :: nat) < 256" "(of_char c' :: nat) < 256" by simp_all
  have "n div 16 < 16" if "n < 256" for n :: nat using that by arith
  with b have "(of_char c :: nat) div 16 < 16" "(of_char c' :: nat) div 16 < 16" by blast+
  then have 1: "(of_char c :: nat) div 16 = (of_char c' :: nat) div 16"
    using assms(1) hexdigit_inj by blast
  have 2: "(of_char c :: nat) mod 16 = (of_char c' :: nat) mod 16"
    using assms(2) hexdigit_inj [of "(of_char c :: nat) mod 16" "(of_char c' :: nat) mod 16"] by simp
  have "(of_char c :: nat) = of_char c'"
    using 1 2 by (metis div_mult_mod_eq)
  then show ?thesis by simp
qed

lemma hexdigit_plain:
  assumes "n < 16"
  shows "hexdigit n \<noteq> CHR ''=''" and "hexdigit n \<noteq> CHR ''&''"
proof -
  have "n < length ''0123456789ABCDEF''" using assms by simp
  then have "hexdigit n \<in> set ''0123456789ABCDEF''"
    unfolding hexdigit_def by (rule nth_mem)
  then show "hexdigit n \<noteq> CHR ''=''" and "hexdigit n \<noteq> CHR ''&''" by auto
qed

lemma encodeByte_plain: "CHR ''='' \<notin> set (encodeByte c)" "CHR ''&'' \<notin> set (encodeByte c)"
proof -
  have b: "(of_char c :: nat) < 256" by simp
  have "n div 16 < 16" if "n < 256" for n :: nat using that by arith
  with b have d: "(of_char c :: nat) div 16 < 16" by blast
  have m: "(of_char c :: nat) mod 16 < 16" by simp
  show "CHR ''='' \<notin> set (encodeByte c)"
    using hexdigit_plain(1) [OF d] hexdigit_plain(1) [OF m]
    by (auto simp: encodeByte_def unreserved_def)
  show "CHR ''&'' \<notin> set (encodeByte c)"
    using hexdigit_plain(2) [OF d] hexdigit_plain(2) [OF m]
    by (auto simp: encodeByte_def unreserved_def)
qed

lemma urlencode_plain: "CHR ''='' \<notin> set (urlencode s)" "CHR ''&'' \<notin> set (urlencode s)"
  using encodeByte_plain by (auto simp: urlencode_def)

lemma encodeByte_prefix_free:
  assumes "encodeByte c @ r = encodeByte c' @ r'"
  shows "c = c' \<and> r = r'"
proof -
  have u: "\<not> unreserved (CHR ''%'')" "\<not> unreserved (CHR ''+'')"
    by (simp_all add: unreserved_def)
  consider "unreserved c" | "\<not> unreserved c" "c = CHR '' ''" | "\<not> unreserved c" "c \<noteq> CHR '' ''"
    by blast
  then show ?thesis
  proof cases
    case 1
    then show ?thesis using assms u
      by (auto simp: encodeByte_def split: if_splits)
  next
    case 2
    then show ?thesis using assms u
      by (auto simp: encodeByte_def split: if_splits)
  next
    case 3
    then show ?thesis using assms u hexdigit_pair_inj [of c c']
      by (auto simp: encodeByte_def split: if_splits)
  qed
qed

lemma encodeByte_nonempty: "encodeByte c \<noteq> []"
  by (simp add: encodeByte_def)

lemma urlencode_inj: "urlencode s = urlencode t \<Longrightarrow> s = t"
proof (induction s arbitrary: t)
  case Nil
  then show ?case
    by (cases t) (simp_all add: urlencode_def encodeByte_nonempty)
next
  case (Cons c s)
  then obtain c' t' where t: "t = c' # t'"
    by (cases t) (simp_all add: urlencode_def encodeByte_nonempty)
  then have "encodeByte c @ urlencode s = encodeByte c' @ urlencode t'"
    using Cons.prems by (simp add: urlencode_def)
  then have "c = c' \<and> urlencode s = urlencode t'" by (rule encodeByte_prefix_free)
  then show ?case using Cons.IH t by blast
qed

lemma split_at_first:
  assumes "c \<notin> set xs" and "c \<notin> set ys" and "xs @ c # r = ys @ c # r'"
  shows "xs = ys \<and> r = r'"
  using assms
proof (induction xs arbitrary: ys)
  case Nil
  then show ?case by (cases ys) auto
next
  case (Cons x xs)
  then show ?case by (cases ys) auto
qed

lemma toString_Cons:
  "URLSearchParams_toString ((n, v) # ps) =
     urlencode n @ CHR ''='' # urlencode v
       @ (if ps = [] then [] else CHR ''&'' # URLSearchParams_toString ps)"
  by (cases ps) auto

lemma toString_inj:
  "URLSearchParams_toString ps = URLSearchParams_toString qs \<Longrightarrow> ps = qs"
proof (induction ps arbitrary: qs)
  case Nil
  then show ?case
    by (cases qs) (auto simp: toString_Cons)
next
  case (Cons p ps)
  obtain n v where p: "p = (n, v)" by (cases p)
  obtain n' v' qs' where qs: "qs = (n', v') # qs'"
    using Cons.prems p by (cases qs) (auto simp: toString_Cons)
  let ?R = "urlencode v @ (if ps = [] then [] else CHR ''&'' # URLSearchParams_toString ps)"
  let ?R' = "urlencode v' @ (if qs' = [] then [] else CHR ''&'' # URLSearchParams_toString qs')"
  have "urlencode n @ CHR ''='' # ?R = urlencode n' @ CHR ''='' # ?R'"
    using Cons.prems p qs by (simp only: toString_Cons)
  then have "urlencode n = urlencode n' \<and> ?R = ?R'"
    using urlencode_plain(1) by (intro split_at_first)
  then have n: "n = n'" and R: "?R = ?R'"
    using urlencode_inj by blast+
  have amp: "CHR ''&'' \<notin> set (urlencode v)" "CHR ''&'' \<notin> set (urlencode v')"
    using urlencode_plain(2) by blast+
  show ?case
  proof (cases "ps = []")
    case True
    show ?thesis
    proof (cases "qs' = []")
      case qe: True
      then have "v = v'" using R True urlencode_inj by simp
      then show ?thesis using n p qs True qe by simp
    next
      case False
      then have "CHR ''&'' \<in> set ?R'" by simp
      then show ?thesis using R True amp(1) by simp
    qed
  next
    case False
    show ?thesis
    proof (cases "qs' = []")
      case True
      have "CHR ''&'' \<in> set ?R" using False by simp
      then show ?thesis using R True amp(2) by simp
    next
      case qn: False
      have "urlencode v @ CHR ''&'' # URLSearchParams_toString ps
            = urlencode v' @ CHR ''&'' # URLSearchParams_toString qs'"
        using R False qn by simp
      then have "urlencode v = urlencode v'
                 \<and> URLSearchParams_toString ps = URLSearchParams_toString qs'"
        using amp by (intro split_at_first)
      then show ?thesis using Cons.IH urlencode_inj n p qs by blast
    qed
  qed
qed

text \<open>
  C7: the key is the endpoint, a question mark, and the query string that lists the
  parameters in the order the call supplies them; nothing sorts them. For one endpoint two
  calls therefore compute the same key exactly when they supply the same parameters in the
  same order.
\<close>

theorem cacheKey_determined_by_ordered_parameters:
  "cacheKey e ps = e @ ''?'' @ URLSearchParams_toString ps
   \<and> (URLSearchParams_toString ps = URLSearchParams_toString qs) = (ps = qs)
   \<and> (cacheKey e ps = cacheKey e qs) = (ps = qs)"
  using toString_inj by (auto simp: cacheKey_def)

theorem cacheKey_determined_by_ordered_parameters_witness:
  "cacheKey ''/stock'' [(''name'', ''TATA MOTORS'')] = ''/stock?name=TATA+MOTORS''
   \<and> (cacheKey ''/historical_data'' [(''stock_name'', ''TCS''), (''period'', ''1yr'')]
        = cacheKey ''/historical_data'' [(''period'', ''1yr''), (''stock_name'', ''TCS'')]) = False"
  using cacheKey_determined_by_ordered_parameters
    [of "''/historical_data''" "[(''stock_name'', ''TCS''), (''period'', ''1yr'')]"
        "[(''period'', ''1yr''), (''stock_name'', ''TCS'')]"]
  by (simp add: cacheKey_def urlencode_def encodeByte_def unreserved_def hexdigit_def)

text \<open>
  The same two parameters of \<^verbatim>\<open>/historical_data\<close>, supplied in the two possible orders,
  give two different keys.
\<close>

theorem cacheKey_order_counterexample:
  "set [(''period'', ''1yr''), (''filter'', ''price'')]
     = set [(''filter'', ''price''), (''period'', ''1yr'')]
   \<and> cacheKey ''/historical_data'' [(''period'', ''1yr''), (''filter'', ''price'')]
     \<noteq> cacheKey ''/historical_data'' [(''filter'', ''price''), (''period'', ''1yr'')]"
  by (auto simp: cacheKey_def urlencode_def encodeByte_def unreserved_def hexdigit_def)

section \<open>Defaults of the normalised records\<close>

lemma getprop_JObj [simp]: "getprop (JObj kvs) n = Inr (field kvs n)"
  by (simp add: getprop_def)

lemma Number_zero [simp]: "Number (JNum (Fin 0)) = Inr (Fin 0)"
  by (simp add: Number_def)






lemma bindE_Inr [simp]: "bindE (Inr v) f = f v"
  by (simp add: bindE_def)

lemma bindE_Inl [simp]: "bindE (Inl e) f = Inl e"
  by (simp add: bindE_def)







text \<open>
  In this version of \<^verbatim>\<open>getHistoricalData\<close> an entry with a date and no price is kept, with
  NaN for its prices.
\<close>

lemma historical_short_entry_kept:
  "getHistoricalData (Fulfilled (JObj [(''datasets'', JArr [JObj [(''metric'', JStr ''Price''),
       (''values'', JArr [JArr [JStr ''2024-01-03'', JStr ''12.5''], JArr [JStr ''2024-01-02'']])]])]))
   = Fulfilled [\<lparr> ch_date = JStr ''2024-01-02'', ch_open = NaN, ch_high = NaN, ch_low = NaN,
                  ch_close = NaN, ch_volume = Fin 0 \<rparr>,
                \<lparr> ch_date = JStr ''2024-01-03'', ch_open = Fin (25 / 2), ch_high = Fin (25 / 2),
                  ch_low = Fin (25 / 2), ch_close = Fin (25 / 2), ch_volume = Fin 0 \<rparr>]"
  by (simp add: op_defs num_defs)

section \<open>Clearing the cache\<close>



section \<open>The second look into the cache\<close>

text \<open>
  C10: when an item is taken from the queue and the cache holds a valid entry for its key,
  the item performs no \<^verbatim>\<open>fetch\<close>: it hands the cached payload to the queue wrapper, which
  resolves the caller's promise with it.
\<close>

theorem queued_item_served_from_cache:
  assumes "requestQueue s = it # q" and "cache s (q_key it) = Some (d, ts)"
    and "clock s - ts < CACHE_DURATION"
  shows "dispatch s = (s\<lparr>requestQueue := q, dispatched := dispatched s @ [(it, clock s)]\<rparr>,
                       Some (AwaitWrapper it (Fulfilled d)))
         \<and> fetchLog (fst (dispatch s)) = fetchLog s
         \<and> (q_pid it \<notin> dom (settled s) \<longrightarrow>
              settled (fst (wrapper_finish it (Fulfilled d) (fst (dispatch s)))) (q_pid it)
              = Some (Fulfilled d))
         \<and> fetchLog (fst (wrapper_finish it (Fulfilled d) (fst (dispatch s)))) = fetchLog s"
proof -
  have "cache_hit s (q_key it) = Some d"
    using assms by (auto simp: cache_hit_Some_iff)
  then show ?thesis using assms(1)
    by (simp add: dispatch_def request_start_def wrapper_finish_def settle_def)
qed

theorem queued_item_served_from_cache_witness:
  "requestQueue raced = [QItem ''/trending'' [] 1]
   \<and> cache raced (q_key (QItem ''/trending'' [] 1)) = Some (JArr [], 10000)
   \<and> clock raced - 10000 < CACHE_DURATION
   \<and> q_pid (QItem ''/trending'' [] 1) \<notin> dom (settled raced)
   \<and> snd (dispatch raced) = Some (AwaitWrapper (QItem ''/trending'' [] 1) (Fulfilled (JArr [])))
   \<and> fetchLog (fst (dispatch raced)) = [(QItem ''/trending'' [] 0, 10000)]
   \<and> settled (fst (wrapper_finish (QItem ''/trending'' [] 1) (Fulfilled (JArr []))
        (fst (dispatch raced)))) 1 = Some (Fulfilled (JArr []))"
  using queued_item_served_from_cache
    [of raced "QItem ''/trending'' [] 1" "[]" "JArr []" 10000]
  by (simp add: raced_def gov_defs)

end
